theory Spec2Isabelle
  imports Main "HOL-Library.Multiset"
begin

section \<open>Battleships: ships, boards and players\<close>

text \<open>
  A shallow embedding of \<^verbatim>\<open>battleship/ship.py\<close>, \<^verbatim>\<open>battleship/board.py\<close> and
  \<^verbatim>\<open>battleship/player.py\<close>. Python integers are \<^typ>\<open>int\<close>, a coordinate is a pair
  of integers, a Python \<^verbatim>\<open>set\<close> of coordinates is a HOL set built from executable
  operations, a raised \<^verbatim>\<open>ValueError\<close> or \<^verbatim>\<open>IndexError\<close> is the left summand of a
  sum type, and mutation of an object is returning the updated record.
\<close>

subsection \<open>Errors and Python helpers\<close>

datatype error =
    ValueError_orientation   \<comment> \<open>ship.py line 23\<close>
  | ValueError_lengths       \<comment> \<open>board.py line 45\<close>
  | ValueError_too_close     \<comment> \<open>board.py line 48\<close>
  | ValueError_remove        \<comment> \<open>\<^verbatim>\<open>list.remove(x)\<close> with \<^verbatim>\<open>x\<close> not in the list\<close>
  | IndexError               \<comment> \<open>\<^verbatim>\<open>random.choice\<close> of an empty sequence\<close>

type_synonym coord = "int \<times> int"

text \<open>\<^verbatim>\<open>range(n)\<close> for a Python integer \<^verbatim>\<open>n\<close>: empty when \<^verbatim>\<open>n <= 0\<close>.\<close>

definition py_range :: "int \<Rightarrow> int list" where
  "py_range n = [0..n - 1]"

subsection \<open>ship.py\<close>

record ship =
  x_start :: int
  y_start :: int
  x_end :: int
  y_end :: int
  set_coordinates_damages :: "coord set"
  set_all_coordinates :: "coord set"

definition is_vertical :: "ship \<Rightarrow> bool" where
  "is_vertical s = (x_start s = x_end s)"

definition is_horizontal :: "ship \<Rightarrow> bool" where
  "is_horizontal s = (y_start s = y_end s)"

definition length_ship :: "ship \<Rightarrow> int" where
  "length_ship s =
     (if is_vertical s then y_end s - y_start s + 1 else x_end s - x_start s + 1)"

definition get_all_coordinates :: "ship \<Rightarrow> coord set" where
  "get_all_coordinates s =
     (if is_vertical s
      then set (map (\<lambda>i. (x_start s, y_start s + i)) (py_range (length_ship s)))
      else set (map (\<lambda>j. (x_start s + j, y_start s)) (py_range (length_ship s))))"

text \<open>
  \<^verbatim>\<open>Ship.__init__\<close>: the corners are normalised with \<^verbatim>\<open>min\<close>/\<^verbatim>\<open>max\<close> per axis, the
  orientation is checked, the damage set starts empty and the occupied cells are cached.
\<close>

definition Ship_init :: "coord \<Rightarrow> coord \<Rightarrow> error + ship" where
  "Ship_init coord_start coord_end =
     (let s0 = \<lparr> x_start = min (fst coord_start) (fst coord_end),
                 y_start = min (snd coord_start) (snd coord_end),
                 x_end = max (fst coord_start) (fst coord_end),
                 y_end = max (snd coord_start) (snd coord_end),
                 set_coordinates_damages = {},
                 set_all_coordinates = {} \<rparr>
      in if \<not> is_horizontal s0 \<and> \<not> is_vertical s0 then Inl ValueError_orientation
         else Inr (s0 \<lparr> set_all_coordinates := get_all_coordinates s0 \<rparr>))"

definition is_on_coordinate :: "ship \<Rightarrow> int \<Rightarrow> int \<Rightarrow> bool" where
  "is_on_coordinate s coord_x coord_y = ((coord_x, coord_y) \<in> get_all_coordinates s)"

definition gets_damage_at :: "ship \<Rightarrow> int \<Rightarrow> int \<Rightarrow> ship" where
  "gets_damage_at s coord_damage_x coord_damage_y =
     (if is_on_coordinate s coord_damage_x coord_damage_y
      then s \<lparr> set_coordinates_damages :=
                 insert (coord_damage_x, coord_damage_y) (set_coordinates_damages s) \<rparr>
      else s)"

definition is_damaged_at :: "ship \<Rightarrow> int \<Rightarrow> int \<Rightarrow> bool" where
  "is_damaged_at s coord_x coord_y = ((coord_x, coord_y) \<in> set_coordinates_damages s)"

definition number_damages :: "ship \<Rightarrow> int" where
  "number_damages s = int (card (set_coordinates_damages s))"

definition has_sunk :: "ship \<Rightarrow> bool" where
  "has_sunk s = (number_damages s = length_ship s)"

definition is_near_coordinate :: "ship \<Rightarrow> int \<Rightarrow> int \<Rightarrow> bool" where
  "is_near_coordinate s coord_x coord_y =
     (x_start s - 1 \<le> coord_x \<and> coord_x \<le> x_end s + 1
      \<and> y_start s - 1 \<le> coord_y \<and> coord_y \<le> y_end s + 1)"

definition is_near_ship :: "ship \<Rightarrow> ship \<Rightarrow> bool" where
  "is_near_ship s other_ship =
     (\<exists>c \<in> get_all_coordinates other_ship. is_near_coordinate s (fst c) (snd c))"

text \<open>
  The ships a program can hold: built by the constructor, then damaged any number of
  times through \<^verbatim>\<open>gets_damage_at\<close>, the only method that writes a field.
\<close>

inductive ship_reachable :: "ship \<Rightarrow> bool" where
  constructed: "Ship_init a b = Inr s \<Longrightarrow> ship_reachable s"
| damaged: "ship_reachable s \<Longrightarrow> ship_reachable (gets_damage_at s x y)"

text \<open>The class invariant those ships satisfy.\<close>

definition ship_wf :: "ship \<Rightarrow> bool" where
  "ship_wf s =
     (x_start s \<le> x_end s \<and> y_start s \<le> y_end s
      \<and> (is_vertical s \<or> is_horizontal s)
      \<and> set_coordinates_damages s \<subseteq> get_all_coordinates s
      \<and> set_all_coordinates s = get_all_coordinates s)"

subsection \<open>board.py\<close>

definition SIZE_X :: int where
  "SIZE_X = 10"

definition SIZE_Y :: int where
  "SIZE_Y = 10"

text \<open>
  \<^verbatim>\<open>DICT_NUMBER_SHIPS_PER_LENGTH\<close>: a dictionary is kept as the list of its items in
  insertion order, which is the order \<^verbatim>\<open>keys()\<close> and \<^verbatim>\<open>items()\<close> iterate in.
\<close>

definition DICT_NUMBER_SHIPS_PER_LENGTH :: "(int \<times> int) list" where
  "DICT_NUMBER_SHIPS_PER_LENGTH = [(1, 1), (2, 1), (3, 1), (4, 1), (5, 1)]"

text \<open>
  \<^verbatim>\<open>==\<close> on two dictionaries ignores the order of insertion: with distinct keys on both
  sides they are equal exactly when they hold the same items.
\<close>

definition dict_eq :: "('k \<times> 'v) list \<Rightarrow> ('k \<times> 'v) list \<Rightarrow> bool" where
  "dict_eq d1 d2 = (set d1 = set d2)"

text \<open>\<^verbatim>\<open>itertools.combinations(xs, 2)\<close>: the pairs of positions \<open>i < j\<close>, in order.\<close>

fun combinations2 :: "'a list \<Rightarrow> ('a \<times> 'a) list" where
  "combinations2 [] = []"
| "combinations2 (x # xs) = map (Pair x) xs @ combinations2 xs"

record board =
  list_ships :: "ship list"
  set_coordinates_previous_shots :: "coord set"
  ship_lengths :: "int list"

text \<open>
  \<^verbatim>\<open>lengths_of_ships_correct\<close>: \<^verbatim>\<open>sorted(list(set(self.ship_lengths)))\<close> is the sorted
  list of the distinct lengths, and the comprehension counts each of them.
\<close>

definition lengths_of_ships_correct :: "board \<Rightarrow> bool" where
  "lengths_of_ships_correct b =
     (let keys = sort (remdups (ship_lengths b));
          dict_number_ships_per_length =
            map (\<lambda>key. (key, int (count_list (ship_lengths b) key))) keys
      in dict_eq dict_number_ships_per_length DICT_NUMBER_SHIPS_PER_LENGTH)"

definition are_some_ships_too_close_from_each_other :: "board \<Rightarrow> bool" where
  "are_some_ships_too_close_from_each_other b =
     list_ex (\<lambda>(ship, other_ship). is_near_ship ship other_ship)
       (combinations2 (list_ships b))"

text \<open>
  \<^verbatim>\<open>Board.__init__\<close>: the fields are assigned, then the two checks run in this order; a
  raised \<^verbatim>\<open>ValueError\<close> leaves the caller without a board.
\<close>

definition Board_init :: "ship list \<Rightarrow> error + board" where
  "Board_init ships =
     (let b = \<lparr> list_ships = ships,
                set_coordinates_previous_shots = {},
                ship_lengths = map length_ship ships \<rparr>
      in if \<not> lengths_of_ships_correct b then Inl ValueError_lengths
         else if are_some_ships_too_close_from_each_other b then Inl ValueError_too_close
         else Inr b)"

definition has_no_ships_left :: "board \<Rightarrow> bool" where
  "has_no_ships_left b = list_all has_sunk (list_ships b)"

text \<open>
  The loop of \<^verbatim>\<open>is_attacked_at\<close> over \<^verbatim>\<open>self.list_ships\<close>: the first ship on the
  coordinate is damaged in place and the function returns at once; the list is returned
  with that ship replaced by its damaged state. The ships of a board that passed
  \<^verbatim>\<open>Board.__init__\<close> have five different lengths, so no object occurs twice in the list.
\<close>

fun attack_ships :: "ship list \<Rightarrow> int \<Rightarrow> int \<Rightarrow> (bool \<times> bool) \<times> ship list" where
  "attack_ships [] coord_x coord_y = ((False, False), [])"
| "attack_ships (ship # ships) coord_x coord_y =
     (if is_on_coordinate ship coord_x coord_y
      then (let ship' = gets_damage_at ship coord_x coord_y
            in ((True, has_sunk ship'), ship' # ships))
      else (case attack_ships ships coord_x coord_y of
              (result, ships') \<Rightarrow> (result, ship # ships')))"

text \<open>
  \<^verbatim>\<open>Board.is_attacked_at\<close> returns \<^verbatim>\<open>(is_ship_hit, has_ship_sunk)\<close>; the model pairs
  it with the board after the call. No statement of the method writes
  \<^verbatim>\<open>set_coordinates_previous_shots\<close>.
\<close>

definition is_attacked_at :: "board \<Rightarrow> int \<Rightarrow> int \<Rightarrow> (bool \<times> bool) \<times> board" where
  "is_attacked_at b coord_x coord_y =
     (case attack_ships (list_ships b) coord_x coord_y of
        (result, ships') \<Rightarrow> (result, b \<lparr> list_ships := ships' \<rparr>))"

text \<open>The invariant of a fleet that passed the constructor's checks.\<close>

definition fleet_wf :: "ship list \<Rightarrow> bool" where
  "fleet_wf ships =
     ((\<forall>s \<in> set ships. ship_wf s)
      \<and> (\<forall>i j. i < j \<and> j < length ships \<longrightarrow> \<not> is_near_ship (ships ! i) (ships ! j)))"

text \<open>The boards a program can hold: built from ships it can hold, then attacked.\<close>

inductive board_reachable :: "board \<Rightarrow> bool" where
  built: "\<forall>s \<in> set ships. ship_reachable s \<Longrightarrow> Board_init ships = Inr b
            \<Longrightarrow> board_reachable b"
| attacked: "board_reachable b \<Longrightarrow> board_reachable (snd (is_attacked_at b x y))"

text \<open>The cells of the board: \<open>1 \<le> x \<le> SIZE_X\<close> and \<open>1 \<le> y \<le> SIZE_Y\<close>.\<close>

definition on_board :: "coord \<Rightarrow> bool" where
  "on_board c = (1 \<le> fst c \<and> fst c \<le> SIZE_X \<and> 1 \<le> snd c \<and> snd c \<le> SIZE_Y)"

text \<open>Building a list of ships from corner pairs, stopping at the first error.\<close>

fun Ships_init :: "(coord \<times> coord) list \<Rightarrow> error + ship list" where
  "Ships_init [] = Inr []"
| "Ships_init ((a, b) # cs) =
     (case Ship_init a b of
        Inl e \<Rightarrow> Inl e
      | Inr s \<Rightarrow> (case Ships_init cs of Inl e \<Rightarrow> Inl e | Inr ss \<Rightarrow> Inr (s # ss)))"

text \<open>
  The fleet that the \<^verbatim>\<open>__main__\<close> block at the end of \<^verbatim>\<open>player.py\<close> builds (lines
  247 to 253), and a fleet of the same shape whose longest ship lies one column right of
  the board.
\<close>

definition main_corners :: "(coord \<times> coord) list" where
  "main_corners =
     [((1, 1), (1, 1)), ((3, 3), (3, 4)), ((5, 3), (5, 5)), ((7, 1), (7, 4)),
      ((9, 3), (9, 7))]"

definition main_ships :: "ship list" where
  "main_ships = (case Ships_init main_corners of Inr ss \<Rightarrow> ss | Inl e \<Rightarrow> [])"

definition main_board :: board where
  "main_board =
     \<lparr> list_ships = main_ships, set_coordinates_previous_shots = {},
       ship_lengths = [1, 2, 3, 4, 5] \<rparr>"

definition offside_corners :: "(coord \<times> coord) list" where
  "offside_corners =
     [((1, 1), (1, 1)), ((3, 3), (3, 4)), ((5, 3), (5, 5)), ((7, 1), (7, 4)),
      ((11, 3), (11, 7))]"

definition offside_ships :: "ship list" where
  "offside_ships = (case Ships_init offside_corners of Inr ss \<Rightarrow> ss | Inl e \<Rightarrow> [])"

definition offside_board :: board where
  "offside_board =
     \<lparr> list_ships = offside_ships, set_coordinates_previous_shots = {},
       ship_lengths = [1, 2, 3, 4, 5] \<rparr>"

subsection \<open>Random draws\<close>

text \<open>
  The random source is a list of natural numbers, consumed from the front; a loop that
  needs a number when the list is empty has not returned within the numbers given, and its
  result is \<open>None\<close>. \<^verbatim>\<open>random.choice(seq)\<close> raises \<^verbatim>\<open>IndexError\<close> on an empty
  sequence and otherwise returns \<^verbatim>\<open>seq[i]\<close> for a random index \<open>i\<close> below the length:
  the index is the number drawn, reduced modulo the length, so every element can be chosen.
  \<^verbatim>\<open>random.randint(a, b)\<close> returns a random integer between \<open>a\<close> and \<open>b\<close>, both included.
\<close>

definition choice :: "'a list \<Rightarrow> nat \<Rightarrow> error + 'a" where
  "choice seq r = (if seq = [] then Inl IndexError else Inr (seq ! (r mod length seq)))"

definition randint :: "int \<Rightarrow> int \<Rightarrow> nat \<Rightarrow> int" where
  "randint a b r = a + int (r mod nat (b - a + 1))"

subsection \<open>board.py: the automatic fleet\<close>

text \<open>
  \<^verbatim>\<open>itertools.permutations(xs, 2)\<close>: the pairs of elements at two different positions,
  in the order of the positions.
\<close>

definition permutations2 :: "'a list \<Rightarrow> ('a \<times> 'a) list" where
  "permutations2 xs =
     concat (map (\<lambda>i. map (\<lambda>j. (xs ! i, xs ! j)) (filter (\<lambda>j. j \<noteq> i) [0..<length xs]))
               [0..<length xs])"

text \<open>
  \<^verbatim>\<open>free_coords\<close> is a Python set. It is kept as a list without repetition, standing for
  the set in the order \<^verbatim>\<open>tuple(free_coords)\<close> lists it; \<^verbatim>\<open>set(...)\<close> drops repetitions,
  \<^verbatim>\<open>issubset\<close> and \<^verbatim>\<open>difference_update\<close> read it as a set. Line 169:
  \<^verbatim>\<open>free_coords = set(permutations(range(1,11), 2))\<close>.
\<close>

definition free_coords_init :: "coord list" where
  "free_coords_init = remdups (permutations2 [1..11 - 1])"

definition difference_update :: "coord list \<Rightarrow> coord set \<Rightarrow> coord list" where
  "difference_update free_coords cells = filter (\<lambda>c. c \<notin> cells) free_coords"

text \<open>
  The \<^verbatim>\<open>while not ship_created_successfully\<close> loop (lines 175 to 189) for one ship of
  the given length. An iteration draws the start and then the end; the state is
  \<^verbatim>\<open>free_coords\<close>, \<^verbatim>\<open>list_ships\<close> and \<^verbatim>\<open>first_ship\<close>, returned with the numbers left.
\<close>

fun place_ship ::
  "nat list \<Rightarrow> int \<Rightarrow> coord list \<Rightarrow> ship list \<Rightarrow> bool
     \<Rightarrow> (error + (coord list \<times> ship list \<times> bool) \<times> nat list) option" where
  "place_ship (r1 # r2 # rs) len free_coords ships first_ship =
     (case choice free_coords r1 of
        Inl e \<Rightarrow> Some (Inl e)
      | Inr start_coord \<Rightarrow>
         (case choice [(fst start_coord + (len - 1), snd start_coord),
                       (fst start_coord, snd start_coord + (len - 1)),
                       (fst start_coord - (len - 1), snd start_coord),
                       (fst start_coord, snd start_coord - (len - 1))] r2 of
            Inl e \<Rightarrow> Some (Inl e)
          | Inr end_coord \<Rightarrow>
             (case Ship_init start_coord end_coord of
                Inl e \<Rightarrow> Some (Inl e)
              | Inr new_ship \<Rightarrow>
                 if \<not> get_all_coordinates new_ship \<subseteq> set free_coords
                 then place_ship rs len free_coords ships first_ship
                 else if first_ship
                 then Some (Inr ((difference_update free_coords (get_all_coordinates new_ship),
                                  ships @ [new_ship], False), rs))
                 else if \<not> list_ex (\<lambda>other_ship. is_near_ship new_ship other_ship) ships
                 then Some (Inr ((difference_update free_coords (get_all_coordinates new_ship),
                                  ships @ [new_ship], first_ship), rs))
                 else place_ship rs len free_coords ships first_ship)))"
| "place_ship rs len free_coords ships first_ship = None"

text \<open>
  The loop \<^verbatim>\<open>for number_of_ships_of_length in range(n)\<close> (line 173), \<open>n\<close> iterations.
\<close>

fun place_ships_of_length ::
  "nat \<Rightarrow> nat list \<Rightarrow> int \<Rightarrow> coord list \<Rightarrow> ship list \<Rightarrow> bool
     \<Rightarrow> (error + (coord list \<times> ship list \<times> bool) \<times> nat list) option" where
  "place_ships_of_length 0 rs len free_coords ships first_ship =
     Some (Inr ((free_coords, ships, first_ship), rs))"
| "place_ships_of_length (Suc n) rs len free_coords ships first_ship =
     (case place_ship rs len free_coords ships first_ship of
        None \<Rightarrow> None
      | Some (Inl e) \<Rightarrow> Some (Inl e)
      | Some (Inr ((free_coords', ships', first_ship'), rs')) \<Rightarrow>
          place_ships_of_length n rs' len free_coords' ships' first_ship')"

text \<open>
  The loop over the lengths (line 172). It runs over the items of the dictionary, which
  hold for each key the value \<^verbatim>\<open>DICT_NUMBER_SHIPS_PER_LENGTH[length]\<close> that line 173
  looks up.
\<close>

fun place_all ::
  "(int \<times> int) list \<Rightarrow> nat list \<Rightarrow> coord list \<Rightarrow> ship list \<Rightarrow> bool
     \<Rightarrow> (error + ship list) option" where
  "place_all [] rs free_coords ships first_ship = Some (Inr ships)"
| "place_all ((len, number) # items) rs free_coords ships first_ship =
     (case place_ships_of_length (length (py_range number)) rs len free_coords ships first_ship of
        None \<Rightarrow> None
      | Some (Inl e) \<Rightarrow> Some (Inl e)
      | Some (Inr ((free_coords', ships', first_ship'), rs')) \<Rightarrow>
          place_all items rs' free_coords' ships' first_ship')"

text \<open>
  \<^verbatim>\<open>generate_ships_automatically\<close>: \<open>None\<close> when the numbers run out before the five
  ships are placed, \<open>Some (Inl e)\<close> when an exception is raised, \<open>Some (Inr ships)\<close> when
  the method returns \<^verbatim>\<open>list_ships\<close>. \<^verbatim>\<open>[::-1]\<close> reverses the keys.
\<close>

definition generate_ships_automatically :: "nat list \<Rightarrow> (error + ship list) option" where
  "generate_ships_automatically rs =
     place_all (rev DICT_NUMBER_SHIPS_PER_LENGTH) rs free_coords_init [] True"

text \<open>\<^verbatim>\<open>BoardAutomatic.__init__\<close>: the generated fleet goes through \<^verbatim>\<open>Board.__init__\<close>.\<close>

definition BoardAutomatic_init :: "nat list \<Rightarrow> (error + board) option" where
  "BoardAutomatic_init rs =
     (case generate_ships_automatically rs of
        None \<Rightarrow> None
      | Some (Inl e) \<Rightarrow> Some (Inl e)
      | Some (Inr ships) \<Rightarrow> Some (Board_init ships))"

text \<open>The state the loops keep between two ships.\<close>

definition gen_inv :: "coord list \<Rightarrow> ship list \<Rightarrow> bool" where
  "gen_inv free_coords ships =
     ((\<forall>c \<in> set free_coords. on_board c)
      \<and> (\<forall>s \<in> set ships. ship_reachable s \<and> (\<forall>c \<in> get_all_coordinates s. on_board c))
      \<and> (\<forall>i j. i < j \<and> j < length ships \<longrightarrow> \<not> is_near_ship (ships ! i) (ships ! j)))"

text \<open>
  Ten numbers with which every candidate is accepted at once, and the fleet they give.
\<close>

definition example_draws :: "nat list" where
  "example_draws = [0, 1, 15, 1, 30, 0, 50, 0, 70, 0]"

definition example_fleet :: "ship list" where
  "example_fleet =
     (case generate_ships_automatically example_draws of Some (Inr ships) \<Rightarrow> ships | _ \<Rightarrow> [])"

subsection \<open>player.py: the hunting player\<close>

text \<open>
  \<^verbatim>\<open>list.remove(x)\<close> deletes the first occurrence of \<^verbatim>\<open>x\<close> and raises \<^verbatim>\<open>ValueError\<close>
  when there is none. A single \<^verbatim>\<open>random.choice\<close> takes one number from the source.
\<close>

definition py_remove :: "'a list \<Rightarrow> 'a \<Rightarrow> error + 'a list" where
  "py_remove xs x = (if x \<in> set xs then Inr (remove1 x xs) else Inl ValueError_remove)"

definition draw_choice :: "'a list \<Rightarrow> nat list \<Rightarrow> (error + 'a \<times> nat list) option" where
  "draw_choice seq rs =
     (case rs of
        [] \<Rightarrow> None
      | r # rs' \<Rightarrow> (case choice seq r of Inl e \<Rightarrow> Some (Inl e) | Inr x \<Rightarrow> Some (Inr (x, rs'))))"

text \<open>
  The fields of \<^verbatim>\<open>PlayerAutomatic\<close> that \<^verbatim>\<open>select_coordinates_to_attack\<close> reads and
  writes. The player's own board and name play no part in the choice of a target and are
  left out of the state.
\<close>

record player_automatic =
  list_coords_to_attack :: "coord list"
  first_go :: bool
  coord_to_attack :: coord

text \<open>
  \<^verbatim>\<open>PlayerAutomatic.__init__\<close> (lines 130 to 134): the list of all cells, column by
  column, and a first target chosen in it.
\<close>

definition all_coords :: "coord list" where
  "all_coords =
     concat (map (\<lambda>i. map (\<lambda>j. (i, j)) [1..SIZE_Y + 1 - 1]) [1..SIZE_X + 1 - 1])"

definition PlayerAutomatic_init :: "nat \<Rightarrow> error + player_automatic" where
  "PlayerAutomatic_init r =
     (case choice all_coords r of
        Inl e \<Rightarrow> Inl e
      | Inr c \<Rightarrow> Inr \<lparr> list_coords_to_attack = all_coords, first_go = True,
                       coord_to_attack = c \<rparr>)"

definition did_we_just_hit_a_ship :: "int \<Rightarrow> int \<Rightarrow> ship list \<Rightarrow> bool" where
  "did_we_just_hit_a_ship coord_x coord_y opponents_ships =
     list_ex (\<lambda>ship. is_on_coordinate ship coord_x coord_y) opponents_ships"

text \<open>
  \<^verbatim>\<open>did_we_just_sink_a_ship\<close> returns from inside the loop at the first ship on the
  coordinate and falls off the end otherwise, which is Python's \<^verbatim>\<open>None\<close>.
\<close>

fun did_we_just_sink_a_ship :: "int \<Rightarrow> int \<Rightarrow> ship list \<Rightarrow> bool option" where
  "did_we_just_sink_a_ship coord_x coord_y [] = None"
| "did_we_just_sink_a_ship coord_x coord_y (ship # ships) =
     (if is_on_coordinate ship coord_x coord_y then Some (has_sunk ship)
      else did_we_just_sink_a_ship coord_x coord_y ships)"

definition diag_coords :: "int \<Rightarrow> int \<Rightarrow> coord list" where
  "diag_coords x y = [(x + 1, y + 1), (x + 1, y - 1), (x - 1, y + 1), (x - 1, y - 1)]"

text \<open>
  The loop of line 180: \<^verbatim>\<open>while self.coord_to_attack not in self.list_coords_to_attack\<close>.
  The list literal of line 181 is evaluated first, so the inner \<^verbatim>\<open>random.choice\<close> draws
  before the outer one. The last argument is the current \<^verbatim>\<open>self.coord_to_attack\<close>.
\<close>

fun hunt ::
  "nat list \<Rightarrow> int \<Rightarrow> int \<Rightarrow> coord list \<Rightarrow> coord \<Rightarrow> (error + coord \<times> nat list) option" where
  "hunt rs x y coords c =
     (if c \<in> set coords then Some (Inr (c, rs))
      else (case rs of
              r1 # r2 # rs' \<Rightarrow>
                (case choice coords r1 of
                   Inl e \<Rightarrow> Some (Inl e)
                 | Inr far \<Rightarrow>
                    (case choice [(x + 1, y), (x - 1, y), (x, y + 1), (x, y - 1), far] r2 of
                       Inl e \<Rightarrow> Some (Inl e)
                     | Inr c' \<Rightarrow> hunt rs' x y coords c'))
            | _ \<Rightarrow> None))"

text \<open>
  \<^verbatim>\<open>PlayerAutomatic.select_coordinates_to_attack\<close>. The opponent is read only through
  \<^verbatim>\<open>opponent.board.list_ships\<close>, which is the second argument. The result is the returned
  coordinate, the player after the call and the numbers left; \<open>Some (Inl e)\<close> is a raised
  exception and \<open>None\<close> a call that has not returned within the numbers given.
\<close>

definition select_coordinates_to_attack ::
  "player_automatic \<Rightarrow> ship list \<Rightarrow> nat list
     \<Rightarrow> (error + coord \<times> player_automatic \<times> nat list) option" where
  "select_coordinates_to_attack p opponents_ships rs =
     (if first_go p then Some (Inr (coord_to_attack p, p \<lparr> first_go := False \<rparr>, rs))
      else
        (case py_remove (list_coords_to_attack p) (coord_to_attack p) of
           Inl e \<Rightarrow> Some (Inl e)
         | Inr removed \<Rightarrow>
            (let x = fst (coord_to_attack p); y = snd (coord_to_attack p)
             in if did_we_just_hit_a_ship x y opponents_ships
                then
                  (let pruned = filter (\<lambda>coord. coord \<notin> set (diag_coords x y)) removed
                   in if did_we_just_sink_a_ship x y opponents_ships = Some False
                      then
                        (case hunt rs x y pruned (coord_to_attack p) of
                           None \<Rightarrow> None
                         | Some (Inl e) \<Rightarrow> Some (Inl e)
                         | Some (Inr (c, rs')) \<Rightarrow>
                             Some (Inr (c, p \<lparr> list_coords_to_attack := pruned,
                                               coord_to_attack := c \<rparr>, rs')))
                      else
                        (case draw_choice pruned rs of
                           None \<Rightarrow> None
                         | Some (Inl e) \<Rightarrow> Some (Inl e)
                         | Some (Inr (c, rs')) \<Rightarrow>
                             Some (Inr (c, p \<lparr> list_coords_to_attack := pruned,
                                               coord_to_attack := c \<rparr>, rs'))))
                else
                  (case draw_choice removed rs of
                     None \<Rightarrow> None
                   | Some (Inl e) \<Rightarrow> Some (Inl e)
                   | Some (Inr (c, rs')) \<Rightarrow>
                       Some (Inr (c, p \<lparr> list_coords_to_attack := removed,
                                         coord_to_attack := c \<rparr>, rs'))))))"

text \<open>
  The life of a hunting player: constructed, then asked for a target any number of times,
  each time with whatever ships the opponent then has and whatever numbers are drawn. The
  first argument lists the coordinates returned so far, oldest first. A call that raises
  returns no coordinate and ends the life: nothing in the repository catches the exception.
\<close>

inductive auto_run :: "coord list \<Rightarrow> player_automatic \<Rightarrow> bool" where
  auto_start: "PlayerAutomatic_init r = Inr p \<Longrightarrow> auto_run [] p"
| auto_turn: "auto_run h p
    \<Longrightarrow> select_coordinates_to_attack p opponents_ships rs = Some (Inr (c, p', rs'))
    \<Longrightarrow> auto_run (h @ [c]) p'"

text \<open>What holds of the player between two calls.\<close>

definition auto_inv :: "coord list \<Rightarrow> player_automatic \<Rightarrow> bool" where
  "auto_inv h p =
     (distinct (list_coords_to_attack p)
      \<and> (\<forall>c \<in> set (list_coords_to_attack p). on_board c)
      \<and> coord_to_attack p \<in> set (list_coords_to_attack p)
      \<and> distinct h
      \<and> (if first_go p then h = []
         else h \<noteq> [] \<and> last h = coord_to_attack p
              \<and> set (butlast h) \<inter> set (list_coords_to_attack p) = {}))"

subsection \<open>player.py: the random player\<close>

record player_random =
  set_positions_previously_attacked :: "coord set"
  last_attack_coord :: "coord option"
  list_ships_opponent_previously_sunk :: "ship list"

definition PlayerRandom_init :: player_random where
  "PlayerRandom_init =
     \<lparr> set_positions_previously_attacked = {}, last_attack_coord = None,
       list_ships_opponent_previously_sunk = [] \<rparr>"

definition get_random_coordinates :: "nat \<Rightarrow> nat \<Rightarrow> coord" where
  "get_random_coordinates r1 r2 = (randint 1 SIZE_X r1, randint 1 SIZE_Y r2)"

fun near_sunk_ship :: "ship list \<Rightarrow> coord \<Rightarrow> bool" where
  "near_sunk_ship [] coord = False"
| "near_sunk_ship (ship_opponent # ships) coord =
     (if has_sunk ship_opponent \<and> is_near_coordinate ship_opponent (fst coord) (snd coord)
      then True else near_sunk_ship ships coord)"

definition is_position_near_previously_sunk_ship :: "player_random \<Rightarrow> coord \<Rightarrow> bool" where
  "is_position_near_previously_sunk_ship p coord =
     near_sunk_ship (list_ships_opponent_previously_sunk p) coord"

text \<open>
  \<^verbatim>\<open>select_random_coordinates_to_attack\<close>: both flags start true, so the body runs at
  least once; each iteration draws \<open>x\<close>, then \<open>y\<close>, and computes both flags.
\<close>

fun select_random_coordinates_to_attack ::
  "nat list \<Rightarrow> player_random \<Rightarrow> (coord \<times> nat list) option" where
  "select_random_coordinates_to_attack (r1 # r2 # rs) p =
     (let coord_random = get_random_coordinates r1 r2;
          has_position_been_previously_attacked =
            (coord_random \<in> set_positions_previously_attacked p);
          is_position_near_previously_sunk_ship =
            is_position_near_previously_sunk_ship p coord_random
      in if has_position_been_previously_attacked \<or> is_position_near_previously_sunk_ship
         then select_random_coordinates_to_attack rs p
         else Some (coord_random, rs))"
| "select_random_coordinates_to_attack rs p = None"

text \<open>\<^verbatim>\<open>PlayerRandom.select_coordinates_to_attack\<close>; it raises nothing.\<close>

definition select_coordinates_to_attack_random ::
  "player_random \<Rightarrow> nat list \<Rightarrow> (coord \<times> player_random \<times> nat list) option" where
  "select_coordinates_to_attack_random p rs =
     (case select_random_coordinates_to_attack rs p of
        None \<Rightarrow> None
      | Some (position_to_attack, rs') \<Rightarrow>
          Some (position_to_attack,
                p \<lparr> set_positions_previously_attacked :=
                      insert position_to_attack (set_positions_previously_attacked p),
                    last_attack_coord := Some position_to_attack \<rparr>,
                rs'))"

text \<open>
  The life of a random player: constructed, then asked for targets; between two calls
  the game loop may replace the list of sunk ships, and the ships in it, which belong to
  the opponent's board, may be damaged.
\<close>

inductive random_run :: "coord list \<Rightarrow> player_random \<Rightarrow> bool" where
  random_start: "random_run [] PlayerRandom_init"
| random_told: "random_run h p
    \<Longrightarrow> random_run h (p \<lparr> list_ships_opponent_previously_sunk := ships \<rparr>)"
| random_turn: "random_run h p
    \<Longrightarrow> select_coordinates_to_attack_random p rs = Some (c, p', rs')
    \<Longrightarrow> random_run (h @ [c]) p'"

text \<open>
  A hunting player whose first target is \<open>(1, 1)\<close>, before and after its first call, an
  opponent fleet of one undamaged ship on \<open>(1, 1)\<close> and \<open>(1, 2)\<close>, and the player after
  the second call with the draws 10 and 4: the inner \<^verbatim>\<open>random.choice\<close> takes the cell at
  index 10 of the list, the outer one takes that cell. In the list of all cells without
  \<open>(1, 1)\<close> index 10 is the diagonal neighbour \<open>(2, 2)\<close>; with the diagonal neighbours
  taken out it is \<open>(2, 3)\<close>.
\<close>

definition hunter_new :: player_automatic where
  "hunter_new =
     \<lparr> list_coords_to_attack = all_coords, first_go = True, coord_to_attack = (1, 1) \<rparr>"

definition hunter_first :: player_automatic where
  "hunter_first = hunter_new \<lparr> first_go := False \<rparr>"

definition hunted_ships :: "ship list" where
  "hunted_ships = (case Ships_init [((1, 1), (1, 2))] of Inr ss \<Rightarrow> ss | Inl e \<Rightarrow> [])"

definition hunter_second :: player_automatic where
  "hunter_second =
     hunter_first \<lparr> list_coords_to_attack :=
                      filter (\<lambda>coord. coord \<notin> {(2, 2), (2, 0), (0, 2), (0, 0)})
                        (remove1 (1, 1) all_coords),
                    coord_to_attack := (2, 3) \<rparr>"

text \<open>A random player that was told of the first ship of \<open>main_ships\<close>, sunk.\<close>

definition informed_player :: player_random where
  "informed_player =
     PlayerRandom_init
       \<lparr> list_ships_opponent_previously_sunk := [gets_damage_at (main_ships ! 0) 1 1] \<rparr>"

subsection \<open>Geometry of a ship\<close>

lemma set_py_range: "set (py_range n) = {0..<n}"
  by (auto simp: py_range_def)

lemma column_image: "(\<lambda>i. (a, y + i)) ` {0..<n} = {a::int} \<times> {y..<y + (n::int)}"
proof (rule set_eqI)
  fix c :: coord
  obtain u v where c: "c = (u, v)" by (cases c)
  show "c \<in> (\<lambda>i. (a, y + i)) ` {0..<n} \<longleftrightarrow> c \<in> {a} \<times> {y..<y + n}"
  proof
    assume "c \<in> (\<lambda>i. (a, y + i)) ` {0..<n}"
    then show "c \<in> {a} \<times> {y..<y + n}" by auto
  next
    assume "c \<in> {a} \<times> {y..<y + n}"
    then have "u = a" "v - y \<in> {0..<n}" "v = y + (v - y)" by (auto simp: c)
    then show "c \<in> (\<lambda>i. (a, y + i)) ` {0..<n}" unfolding c by blast
  qed
qed

lemma row_image: "(\<lambda>j. (x + j, b)) ` {0..<n} = {x..<x + (n::int)} \<times> {b::int}"
proof (rule set_eqI)
  fix c :: coord
  obtain u v where c: "c = (u, v)" by (cases c)
  show "c \<in> (\<lambda>j. (x + j, b)) ` {0..<n} \<longleftrightarrow> c \<in> {x..<x + n} \<times> {b}"
  proof
    assume "c \<in> (\<lambda>j. (x + j, b)) ` {0..<n}"
    then show "c \<in> {x..<x + n} \<times> {b}" by auto
  next
    assume "c \<in> {x..<x + n} \<times> {b}"
    then have "v = b" "u - x \<in> {0..<n}" "u = x + (u - x)" by (auto simp: c)
    then show "c \<in> (\<lambda>j. (x + j, b)) ` {0..<n}" unfolding c by blast
  qed
qed

text \<open>The occupied cells, whatever the fields hold.\<close>

lemma get_all_coordinates_eq:
  "get_all_coordinates s =
     (if is_vertical s then {x_start s} \<times> {y_start s..<y_start s + length_ship s}
      else {x_start s..<x_start s + length_ship s} \<times> {y_start s})"
  by (simp add: get_all_coordinates_def set_py_range column_image row_image)

lemma get_all_coordinates_box:
  assumes "x_start s \<le> x_end s" "y_start s \<le> y_end s" "is_vertical s \<or> is_horizontal s"
  shows "get_all_coordinates s = {x_start s..x_end s} \<times> {y_start s..y_end s}"
proof (cases "is_vertical s")
  case True
  then have "x_start s = x_end s" by (simp add: is_vertical_def)
  with True show ?thesis
    by (auto simp: get_all_coordinates_eq length_ship_def)
next
  case False
  with assms have "y_start s = y_end s" by (simp add: is_horizontal_def)
  with False show ?thesis
    by (auto simp: get_all_coordinates_eq length_ship_def)
qed

lemma card_get_all_coordinates:
  assumes "x_start s \<le> x_end s" "y_start s \<le> y_end s" "is_vertical s \<or> is_horizontal s"
  shows "int (card (get_all_coordinates s)) = length_ship s"
proof (cases "is_vertical s")
  case True
  then have "x_start s = x_end s" by (simp add: is_vertical_def)
  with assms True show ?thesis
    by (simp add: get_all_coordinates_box length_ship_def)
next
  case False
  with assms have "y_start s = y_end s" by (simp add: is_horizontal_def)
  with assms False show ?thesis
    by (simp add: get_all_coordinates_box length_ship_def)
qed

lemma finite_get_all_coordinates: "finite (get_all_coordinates s)"
  by (simp add: get_all_coordinates_def)

subsection \<open>The class invariant\<close>

lemma get_all_coordinates_damages_update [simp]:
  "get_all_coordinates (s\<lparr>set_coordinates_damages := d\<rparr>) = get_all_coordinates s"
  by (simp add: get_all_coordinates_def is_vertical_def length_ship_def)

lemma get_all_coordinates_cache_update [simp]:
  "get_all_coordinates (s\<lparr>set_all_coordinates := d\<rparr>) = get_all_coordinates s"
  by (simp add: get_all_coordinates_def is_vertical_def length_ship_def)

lemma get_all_coordinates_gets_damage_at [simp]:
  "get_all_coordinates (gets_damage_at s x y) = get_all_coordinates s"
  by (simp add: gets_damage_at_def)

lemma length_ship_gets_damage_at [simp]:
  "length_ship (gets_damage_at s x y) = length_ship s"
  by (simp add: gets_damage_at_def length_ship_def is_vertical_def)

lemma is_on_coordinate_gets_damage_at [simp]:
  "is_on_coordinate (gets_damage_at s x y) u v = is_on_coordinate s u v"
  by (simp add: is_on_coordinate_def)

lemma is_near_coordinate_gets_damage_at [simp]:
  "is_near_coordinate (gets_damage_at s x y) u v = is_near_coordinate s u v"
  by (simp add: gets_damage_at_def is_near_coordinate_def)

lemma is_near_ship_gets_damage_at [simp]:
  "is_near_ship (gets_damage_at s x y) t = is_near_ship s t"
  "is_near_ship t (gets_damage_at s x y) = is_near_ship t s"
  by (simp_all add: is_near_ship_def)

lemma Ship_init_wf:
  assumes "Ship_init a b = Inr s"
  shows "ship_wf s"
proof -
  define s0 where "s0 = \<lparr> x_start = min (fst a) (fst b), y_start = min (snd a) (snd b),
      x_end = max (fst a) (fst b), y_end = max (snd a) (snd b),
      set_coordinates_damages = {}, set_all_coordinates = {} \<rparr>"
  have init: "Ship_init a b
      = (if \<not> is_horizontal s0 \<and> \<not> is_vertical s0 then Inl ValueError_orientation
         else Inr (s0\<lparr>set_all_coordinates := get_all_coordinates s0\<rparr>))"
    unfolding Ship_init_def s0_def Let_def ..
  from assms have ok: "is_vertical s0 \<or> is_horizontal s0"
    and s: "s = s0\<lparr>set_all_coordinates := get_all_coordinates s0\<rparr>"
    unfolding init by (auto split: if_splits)
  have "x_start s \<le> x_end s" "y_start s \<le> y_end s"
    by (simp_all add: s s0_def)
  moreover have "is_vertical s \<or> is_horizontal s"
    using ok by (simp add: s is_vertical_def is_horizontal_def)
  moreover have "set_coordinates_damages s \<subseteq> get_all_coordinates s"
    by (simp add: s s0_def)
  moreover have "set_all_coordinates s = get_all_coordinates s"
    unfolding s by simp
  ultimately show ?thesis by (simp add: ship_wf_def)
qed

lemma gets_damage_at_wf:
  assumes "ship_wf s"
  shows "ship_wf (gets_damage_at s x y)"
proof (cases "is_on_coordinate s x y")
  case True
  with assms show ?thesis
    by (simp add: gets_damage_at_def ship_wf_def is_vertical_def is_horizontal_def
                  is_on_coordinate_def)
next
  case False
  with assms show ?thesis by (simp add: gets_damage_at_def)
qed

lemma ship_reachable_wf: "ship_reachable s \<Longrightarrow> ship_wf s"
  by (induction rule: ship_reachable.induct) (simp_all add: Ship_init_wf gets_damage_at_wf)

lemma ship_wf_box:
  "ship_wf s \<Longrightarrow> get_all_coordinates s = {x_start s..x_end s} \<times> {y_start s..y_end s}"
  by (simp add: ship_wf_def get_all_coordinates_box)

lemma ship_wf_card: "ship_wf s \<Longrightarrow> int (card (get_all_coordinates s)) = length_ship s"
  by (simp add: ship_wf_def card_get_all_coordinates)

lemma ship_wf_has_sunk:
  assumes "ship_wf s"
  shows "has_sunk s \<longleftrightarrow> set_coordinates_damages s = get_all_coordinates s"
proof -
  have sub: "set_coordinates_damages s \<subseteq> get_all_coordinates s"
    using assms by (simp add: ship_wf_def)
  have "has_sunk s \<longleftrightarrow> int (card (set_coordinates_damages s)) = int (card (get_all_coordinates s))"
    by (simp add: has_sunk_def number_damages_def ship_wf_card [OF assms])
  also have "\<dots> \<longleftrightarrow> card (set_coordinates_damages s) = card (get_all_coordinates s)"
    by simp
  also have "\<dots> \<longleftrightarrow> set_coordinates_damages s = get_all_coordinates s"
    using sub card_subset_eq [OF finite_get_all_coordinates sub] by auto
  finally show ?thesis .
qed

subsection \<open>Ship construction\<close>

text \<open>
  C9. Two corners that agree in at least one axis, in either order, build the same ship;
  its length is the span along the other axis plus one, and its occupied cells are the
  \<open>length\<close> cells of the segment between the normalised corners. Corners that differ in
  both axes raise the constructor's \<^verbatim>\<open>ValueError\<close>.
\<close>

theorem Ship_init_segment:
  "(fst a = fst b \<or> snd a = snd b \<longrightarrow>
      (\<exists>s. Ship_init a b = Inr s \<and> Ship_init b a = Inr s
         \<and> length_ship s = (if fst a = fst b then \<bar>snd a - snd b\<bar> else \<bar>fst a - fst b\<bar>) + 1
         \<and> int (card (get_all_coordinates s)) = length_ship s
         \<and> get_all_coordinates s
             = {min (fst a) (fst b)..max (fst a) (fst b)}
               \<times> {min (snd a) (snd b)..max (snd a) (snd b)}
         \<and> set_all_coordinates s = get_all_coordinates s
         \<and> set_coordinates_damages s = {}))
   \<and> (fst a \<noteq> fst b \<and> snd a \<noteq> snd b \<longrightarrow> Ship_init a b = Inl ValueError_orientation)"
proof (intro conjI impI)
  assume ax: "fst a = fst b \<or> snd a = snd b"
  define s0 where "s0 = \<lparr> x_start = min (fst a) (fst b), y_start = min (snd a) (snd b),
      x_end = max (fst a) (fst b), y_end = max (snd a) (snd b),
      set_coordinates_damages = {}, set_all_coordinates = {} \<rparr>"
  define s where "s = s0\<lparr>set_all_coordinates := get_all_coordinates s0\<rparr>"
  have ok: "is_horizontal s0 \<or> is_vertical s0"
    using ax by (auto simp: s0_def is_horizontal_def is_vertical_def)
  have ab: "Ship_init a b = Inr s"
    using ok by (auto simp: Ship_init_def s_def s0_def Let_def)
  have ba: "Ship_init b a = Inr s"
    using ok by (auto simp: Ship_init_def s_def s0_def Let_def min.commute max.commute)
  have wf: "ship_wf s" using ab by (rule Ship_init_wf)
  have len: "length_ship s
      = (if fst a = fst b then \<bar>snd a - snd b\<bar> else \<bar>fst a - fst b\<bar>) + 1"
    by (auto simp: s_def s0_def length_ship_def is_vertical_def)
  have box: "get_all_coordinates s
      = {min (fst a) (fst b)..max (fst a) (fst b)} \<times> {min (snd a) (snd b)..max (snd a) (snd b)}"
    using ship_wf_box [OF wf] by (simp add: s_def s0_def)
  have cache: "set_all_coordinates s = get_all_coordinates s"
    using wf by (simp add: ship_wf_def)
  have dmg: "set_coordinates_damages s = {}" by (simp add: s_def s0_def)
  show "\<exists>s. Ship_init a b = Inr s \<and> Ship_init b a = Inr s
         \<and> length_ship s = (if fst a = fst b then \<bar>snd a - snd b\<bar> else \<bar>fst a - fst b\<bar>) + 1
         \<and> int (card (get_all_coordinates s)) = length_ship s
         \<and> get_all_coordinates s
             = {min (fst a) (fst b)..max (fst a) (fst b)}
               \<times> {min (snd a) (snd b)..max (snd a) (snd b)}
         \<and> set_all_coordinates s = get_all_coordinates s
         \<and> set_coordinates_damages s = {}"
    using ab ba len ship_wf_card [OF wf] box cache dmg by blast
next
  assume "fst a \<noteq> fst b \<and> snd a \<noteq> snd b"
  then show "Ship_init a b = Inl ValueError_orientation"
    by (auto simp: Ship_init_def Let_def is_horizontal_def is_vertical_def)
qed

theorem Ship_init_segment_witness:
  "(\<exists>s. Ship_init (5, 3) (3, 3) = Inr s \<and> Ship_init (3, 3) (5, 3) = Inr s
      \<and> length_ship s = 3 \<and> int (card (get_all_coordinates s)) = 3
      \<and> get_all_coordinates s = {3..5} \<times> {3..3})
   \<and> Ship_init (1, 1) (2, 2) = Inl ValueError_orientation"
  using Ship_init_segment [of "(5, 3)" "(3, 3)"] Ship_init_segment [of "(1, 1)" "(2, 2)"]
  by auto

subsection \<open>Damage\<close>

text \<open>
  C8. For every ship a program can hold, the damaged cells are occupied cells; damaging
  keeps the geometry and never removes a damaged cell; damage at a cell the ship does not
  occupy changes nothing; damaging the same cell a second time leaves
  \<^verbatim>\<open>number_damages()\<close> as it was after the first; and \<^verbatim>\<open>has_sunk()\<close> holds exactly
  when every occupied cell is damaged.
\<close>

theorem ship_damage_invariant:
  assumes "ship_reachable s"
  shows "set_coordinates_damages s \<subseteq> get_all_coordinates s
    \<and> set_coordinates_damages (gets_damage_at s x y) \<subseteq> get_all_coordinates s
    \<and> get_all_coordinates (gets_damage_at s x y) = get_all_coordinates s
    \<and> set_coordinates_damages s \<subseteq> set_coordinates_damages (gets_damage_at s x y)
    \<and> (\<not> is_on_coordinate s x y \<longrightarrow> gets_damage_at s x y = s)
    \<and> (is_on_coordinate s x y \<longrightarrow> is_damaged_at (gets_damage_at s x y) x y)
    \<and> gets_damage_at (gets_damage_at s x y) x y = gets_damage_at s x y
    \<and> number_damages (gets_damage_at (gets_damage_at s x y) x y)
        = number_damages (gets_damage_at s x y)
    \<and> (has_sunk s \<longleftrightarrow> (\<forall>c \<in> get_all_coordinates s. is_damaged_at s (fst c) (snd c)))"
proof -
  have wf: "ship_wf s" using assms by (rule ship_reachable_wf)
  have wf': "ship_wf (gets_damage_at s x y)" using wf by (rule gets_damage_at_wf)
  have sub: "set_coordinates_damages s \<subseteq> get_all_coordinates s"
    using wf by (simp add: ship_wf_def)
  have sub': "set_coordinates_damages (gets_damage_at s x y) \<subseteq> get_all_coordinates s"
    using wf' by (simp add: ship_wf_def)
  have grow: "set_coordinates_damages s \<subseteq> set_coordinates_damages (gets_damage_at s x y)"
    by (auto simp: gets_damage_at_def)
  have noop: "\<not> is_on_coordinate s x y \<longrightarrow> gets_damage_at s x y = s"
    by (simp add: gets_damage_at_def)
  have hit: "is_on_coordinate s x y \<longrightarrow> is_damaged_at (gets_damage_at s x y) x y"
    by (simp add: gets_damage_at_def is_damaged_at_def)
  have idem: "gets_damage_at (gets_damage_at s x y) x y = gets_damage_at s x y"
    by (simp add: gets_damage_at_def is_on_coordinate_def)
  have sunk: "has_sunk s \<longleftrightarrow> (\<forall>c \<in> get_all_coordinates s. is_damaged_at s (fst c) (snd c))"
    using sub by (auto simp: ship_wf_has_sunk [OF wf] is_damaged_at_def)
  show ?thesis
    using sub sub' grow noop hit idem sunk by simp
qed

theorem ship_damage_invariant_witness:
  "ship_reachable
     \<lparr> x_start = 3, y_start = 3, x_end = 4, y_end = 3,
       set_coordinates_damages = {(4, 3)}, set_all_coordinates = {(3, 3), (4, 3)} \<rparr>
   \<and> number_damages (gets_damage_at (gets_damage_at
       \<lparr> x_start = 3, y_start = 3, x_end = 4, y_end = 3,
         set_coordinates_damages = {(4, 3)}, set_all_coordinates = {(3, 3), (4, 3)} \<rparr> 3 3) 3 3) = 2
   \<and> \<not> has_sunk
       \<lparr> x_start = 3, y_start = 3, x_end = 4, y_end = 3,
         set_coordinates_damages = {(4, 3)}, set_all_coordinates = {(3, 3), (4, 3)} \<rparr>"
proof -
  let ?fresh = "\<lparr> x_start = 3, y_start = 3, x_end = 4, y_end = 3,
       set_coordinates_damages = {}, set_all_coordinates = {(3, 3), (4, 3)} \<rparr> :: ship"
  let ?hit = "\<lparr> x_start = 3, y_start = 3, x_end = 4, y_end = 3,
       set_coordinates_damages = {(4, 3)}, set_all_coordinates = {(3, 3), (4, 3)} \<rparr> :: ship"
  have "Ship_init (3, 3) (4, 3) = Inr ?fresh"
    by code_simp
  then have "ship_reachable ?fresh" by (rule constructed)
  then have "ship_reachable (gets_damage_at ?fresh 4 3)" by (rule damaged)
  moreover have "gets_damage_at ?fresh 4 3 = ?hit"
    by code_simp
  ultimately have r: "ship_reachable ?hit" by simp
  have on: "get_all_coordinates ?hit = {(3, 3), (4, 3)}"
    by code_simp
  have "gets_damage_at ?hit 3 3 = ?hit\<lparr>set_coordinates_damages := {(3, 3), (4, 3)}\<rparr>"
    by (simp add: gets_damage_at_def is_on_coordinate_def on)
  then have n: "number_damages (gets_damage_at ?hit 3 3) = 2"
    by (simp add: number_damages_def)
  show ?thesis
    using r n ship_damage_invariant [OF r, of 3 3]
    by (simp add: on is_damaged_at_def)
qed

subsection \<open>Nearness of two ships\<close>

lemma is_near_ship_iff:
  assumes "ship_wf s" "ship_wf t"
  shows "is_near_ship s t \<longleftrightarrow>
     x_start s - 1 \<le> x_end t \<and> x_start t \<le> x_end s + 1
     \<and> y_start s - 1 \<le> y_end t \<and> y_start t \<le> y_end s + 1"
proof
  assume "is_near_ship s t"
  then obtain c where "c \<in> get_all_coordinates t" "is_near_coordinate s (fst c) (snd c)"
    by (auto simp: is_near_ship_def)
  then show "x_start s - 1 \<le> x_end t \<and> x_start t \<le> x_end s + 1
     \<and> y_start s - 1 \<le> y_end t \<and> y_start t \<le> y_end s + 1"
    by (auto simp: ship_wf_box [OF assms(2)] is_near_coordinate_def)
next
  assume h: "x_start s - 1 \<le> x_end t \<and> x_start t \<le> x_end s + 1
     \<and> y_start s - 1 \<le> y_end t \<and> y_start t \<le> y_end s + 1"
  let ?c = "(max (x_start s - 1) (x_start t), max (y_start s - 1) (y_start t))"
  have ns: "x_start s \<le> x_end s" "y_start s \<le> y_end s"
    using assms(1) by (simp_all add: ship_wf_def)
  have nt: "x_start t \<le> x_end t" "y_start t \<le> y_end t"
    using assms(2) by (simp_all add: ship_wf_def)
  have "?c \<in> get_all_coordinates t"
    using h nt by (simp add: ship_wf_box [OF assms(2)])
  moreover have "is_near_coordinate s (fst ?c) (snd ?c)"
    using h ns by (simp add: is_near_coordinate_def)
  ultimately show "is_near_ship s t"
    unfolding is_near_ship_def by blast
qed

lemma is_near_ship_sym:
  assumes "ship_wf s" "ship_wf t"
  shows "is_near_ship s t \<longleftrightarrow> is_near_ship t s"
  unfolding is_near_ship_iff [OF assms] is_near_ship_iff [OF assms(2) assms(1)] by auto

lemma not_near_disjoint:
  assumes "ship_wf s" "\<not> is_near_ship s t" "is_on_coordinate s x y"
  shows "\<not> is_on_coordinate t x y"
proof
  assume "is_on_coordinate t x y"
  then have "(x, y) \<in> get_all_coordinates t" by (simp add: is_on_coordinate_def)
  moreover have "is_near_coordinate s x y"
    using assms(3) by (auto simp: is_on_coordinate_def ship_wf_box [OF assms(1)]
                                  is_near_coordinate_def)
  ultimately have "is_near_ship s t" unfolding is_near_ship_def by force
  with assms(2) show False by simp
qed

subsection \<open>Pairs of a list\<close>

lemma in_set_combinations2:
  "(a, b) \<in> set (combinations2 xs)
     \<longleftrightarrow> (\<exists>i j. i < j \<and> j < length xs \<and> xs ! i = a \<and> xs ! j = b)"
proof (induction xs)
  case Nil
  then show ?case by simp
next
  case (Cons x xs)
  show ?case
  proof
    assume "(a, b) \<in> set (combinations2 (x # xs))"
    then consider "a = x" "b \<in> set xs" | "(a, b) \<in> set (combinations2 xs)" by auto
    then show "\<exists>i j. i < j \<and> j < length (x # xs) \<and> (x # xs) ! i = a \<and> (x # xs) ! j = b"
    proof cases
      case 1
      then obtain j where "j < length xs" "xs ! j = b" by (auto simp: in_set_conv_nth)
      with 1 have "0 < Suc j \<and> Suc j < length (x # xs) \<and> (x # xs) ! 0 = a
          \<and> (x # xs) ! Suc j = b" by simp
      then show ?thesis by blast
    next
      case 2
      then obtain i j where "i < j" "j < length xs" "xs ! i = a" "xs ! j = b"
        using Cons.IH by blast
      then have "Suc i < Suc j \<and> Suc j < length (x # xs) \<and> (x # xs) ! Suc i = a
          \<and> (x # xs) ! Suc j = b" by simp
      then show ?thesis by blast
    qed
  next
    assume "\<exists>i j. i < j \<and> j < length (x # xs) \<and> (x # xs) ! i = a \<and> (x # xs) ! j = b"
    then obtain i j where ij: "i < j" "j < length (x # xs)" "(x # xs) ! i = a"
      "(x # xs) ! j = b" by blast
    from ij(1) obtain j' where j': "j = Suc j'" by (cases j) auto
    show "(a, b) \<in> set (combinations2 (x # xs))"
    proof (cases i)
      case 0
      with ij j' show ?thesis by auto
    next
      case (Suc i')
      with ij j' have "i' < j' \<and> j' < length xs \<and> xs ! i' = a \<and> xs ! j' = b" by simp
      then have "(a, b) \<in> set (combinations2 xs)" using Cons.IH by blast
      then show ?thesis by simp
    qed
  qed
qed

lemma too_close_iff:
  "are_some_ships_too_close_from_each_other b
     \<longleftrightarrow> (\<exists>i j. i < j \<and> j < length (list_ships b)
            \<and> is_near_ship (list_ships b ! i) (list_ships b ! j))"
proof -
  have "are_some_ships_too_close_from_each_other b
      \<longleftrightarrow> (\<exists>p \<in> set (combinations2 (list_ships b)). is_near_ship (fst p) (snd p))"
    by (simp add: are_some_ships_too_close_from_each_other_def list_ex_iff case_prod_beta)
  also have "\<dots> \<longleftrightarrow> (\<exists>a b'. (a, b') \<in> set (combinations2 (list_ships b))
      \<and> is_near_ship a b')"
    by force
  also have "\<dots> \<longleftrightarrow> (\<exists>i j. i < j \<and> j < length (list_ships b)
            \<and> is_near_ship (list_ships b ! i) (list_ships b ! j))"
    unfolding in_set_combinations2 by blast
  finally show ?thesis .
qed

subsection \<open>The fleet composition check\<close>

lemma lengths_of_ships_correct_iff:
  "lengths_of_ships_correct b \<longleftrightarrow> mset (ship_lengths b) = {#1, 2, 3, 4, 5#}"
proof -
  let ?ls = "ship_lengths b"
  have items: "set (map (\<lambda>key. (key, int (count_list ?ls key))) (sort (remdups ?ls)))
      = (\<lambda>k. (k, int (count_list ?ls k))) ` set ?ls"
    by simp
  have corr: "lengths_of_ships_correct b
      \<longleftrightarrow> (\<lambda>k. (k, int (count_list ?ls k))) ` set ?ls
          = {(1, 1), (2, 1), (3, 1), (4, 1), (5, 1)}"
    unfolding lengths_of_ships_correct_def Let_def dict_eq_def items
      DICT_NUMBER_SHIPS_PER_LENGTH_def by simp
  show ?thesis
  proof
    assume "lengths_of_ships_correct b"
    then have eq: "(\<lambda>k. (k, int (count_list ?ls k))) ` set ?ls
          = {(1, 1), (2, 1), (3, 1), (4, 1), (5, 1)}" using corr by simp
    have "fst ` ((\<lambda>k. (k, int (count_list ?ls k))) ` set ?ls) = set ?ls"
      by (simp add: image_image)
    then have keys: "set ?ls = {1, 2, 3, 4, 5}" unfolding eq by simp
    have one: "count_list ?ls k = 1" if "k \<in> set ?ls" for k
    proof -
      from that have "(k, int (count_list ?ls k)) \<in> {(1, 1), (2, 1), (3, 1), (4, 1), (5, 1)}"
        using eq by blast
      then show ?thesis by auto
    qed
    show "mset ?ls = {#1, 2, 3, 4, 5#}"
    proof (rule multiset_eqI)
      fix k
      show "count (mset ?ls) k = count {#1, 2, 3, 4, 5#} k"
      proof (cases "k \<in> set ?ls")
        case True
        then have "count (mset ?ls) k = 1" using one by (simp add: count_mset)
        moreover from True keys have "k \<in> {1, 2, 3, 4, 5}" by simp
        then have "count {#1, 2, 3, 4, 5::int#} k = 1" by auto
        ultimately show ?thesis by simp
      next
        case False
        then have "count (mset ?ls) k = 0" by (simp add: count_mset count_list_0_iff)
        moreover from False keys have "k \<notin> {1, 2, 3, 4, 5}" by simp
        then have "count {#1, 2, 3, 4, 5::int#} k = 0" by auto
        ultimately show ?thesis by simp
      qed
    qed
  next
    assume m: "mset ?ls = {#1, 2, 3, 4, 5#}"
    then have "set_mset (mset ?ls) = set_mset {#1, 2, 3, 4, 5#}" by simp
    then have keys: "set ?ls = {1, 2, 3, 4, 5}" by simp
    have cnt: "count_list ?ls k = count {#1, 2, 3, 4, 5#} k" for k
      using m by (metis count_mset)
    have "(\<lambda>k. (k, int (count_list ?ls k))) ` set ?ls
          = {(1, 1), (2, 1), (3, 1), (4, 1), (5, 1)}"
      unfolding keys cnt by simp
    then show "lengths_of_ships_correct b" using corr by simp
  qed
qed

subsection \<open>Board construction\<close>

lemma Ships_init_reachable:
  "Ships_init cs = Inr ss \<Longrightarrow> \<forall>s \<in> set ss. ship_reachable s"
proof (induction cs arbitrary: ss)
  case Nil
  then show ?case by simp
next
  case (Cons c cs)
  obtain a b where c: "c = (a, b)" by (cases c)
  from Cons.prems obtain s ss' where s: "Ship_init a b = Inr s"
    and ss': "Ships_init cs = Inr ss'" and ss: "ss = s # ss'"
    unfolding c by (auto split: sum.splits)
  have "ship_reachable s" using s by (rule constructed)
  with Cons.IH [OF ss'] show ?case by (simp add: ss)
qed

lemma Board_init_cases:
  "Board_init ships =
     (if mset (map length_ship ships) \<noteq> {#1, 2, 3, 4, 5#} then Inl ValueError_lengths
      else if \<exists>i j. i < j \<and> j < length ships \<and> is_near_ship (ships ! i) (ships ! j)
      then Inl ValueError_too_close
      else Inr \<lparr> list_ships = ships, set_coordinates_previous_shots = {},
                 ship_lengths = map length_ship ships \<rparr>)"
  by (simp add: Board_init_def Let_def lengths_of_ships_correct_iff too_close_iff)

text \<open>
  C4. For ships a program can hold, \<^verbatim>\<open>Board.__init__\<close> raises exactly when the lengths
  are not one each of 1, 2, 3, 4, 5 or two ships at different positions of the list are
  near each other; otherwise it returns the board holding the given ships, with no shot
  recorded. The result is either the error or the complete board.
\<close>

theorem Board_init_error_iff:
  assumes "\<forall>s \<in> set ships. ship_reachable s"
  shows "((\<exists>e. Board_init ships = Inl e) \<longleftrightarrow>
            (mset (map length_ship ships) \<noteq> {#1, 2, 3, 4, 5#}
             \<or> (\<exists>i j. i < length ships \<and> j < length ships \<and> i \<noteq> j
                   \<and> is_near_ship (ships ! i) (ships ! j))))
    \<and> ((\<exists>e. Board_init ships = Inl e)
         \<or> Board_init ships = Inr \<lparr> list_ships = ships, set_coordinates_previous_shots = {},
                                    ship_lengths = map length_ship ships \<rparr>)"
proof -
  have wf: "ship_wf (ships ! i)" if "i < length ships" for i
    using assms that by (simp add: ship_reachable_wf)
  have sym: "(\<exists>i j. i < length ships \<and> j < length ships \<and> i \<noteq> j
                   \<and> is_near_ship (ships ! i) (ships ! j))
      \<longleftrightarrow> (\<exists>i j. i < j \<and> j < length ships \<and> is_near_ship (ships ! i) (ships ! j))"
    (is "?any \<longleftrightarrow> ?ordered")
  proof
    assume ?any
    then obtain i j where ij: "i < length ships" "j < length ships" "i \<noteq> j"
      "is_near_ship (ships ! i) (ships ! j)" by blast
    show ?ordered
    proof (cases "i < j")
      case True
      with ij show ?thesis by blast
    next
      case False
      with ij have "j < i" by simp
      moreover have "is_near_ship (ships ! j) (ships ! i)"
        using ij is_near_ship_sym [OF wf wf, of i j] by simp
      ultimately show ?thesis using ij by blast
    qed
  next
    assume ?ordered
    then obtain i j where "i < j" "j < length ships" "is_near_ship (ships ! i) (ships ! j)"
      by blast
    then have "i < length ships \<and> j < length ships \<and> i \<noteq> j
        \<and> is_near_ship (ships ! i) (ships ! j)" by simp
    then show ?any by blast
  qed
  show ?thesis
    unfolding sym by (simp add: Board_init_cases)
qed

lemma main_ships_init: "Ships_init main_corners = Inr main_ships"
  by code_simp

lemma main_board_init: "Board_init main_ships = Inr main_board"
  by code_simp

theorem Board_init_error_iff_witness:
  "list_all ship_reachable main_ships
   \<and> Board_init main_ships = Inr main_board
   \<and> mset (map length_ship main_ships) = {#1, 2, 3, 4, 5#}
   \<and> \<not> (\<exists>i j. i < length main_ships \<and> j < length main_ships \<and> i \<noteq> j
            \<and> is_near_ship (main_ships ! i) (main_ships ! j))"
proof -
  have r: "\<forall>s \<in> set main_ships. ship_reachable s"
    using main_ships_init by (rule Ships_init_reachable)
  show ?thesis
    using r Board_init_error_iff [OF r] by (simp add: main_board_init list_all_iff)
qed

subsection \<open>Attacks\<close>

lemma attack_ships_miss:
  "\<forall>s \<in> set ships. \<not> is_on_coordinate s x y \<Longrightarrow>
     attack_ships ships x y = ((False, False), ships)"
  by (induction ships) simp_all

lemma attack_ships_hit:
  assumes "i < length ships" "is_on_coordinate (ships ! i) x y"
    "\<forall>j < i. \<not> is_on_coordinate (ships ! j) x y"
  shows "attack_ships ships x y =
     ((True, has_sunk (gets_damage_at (ships ! i) x y)),
      ships[i := gets_damage_at (ships ! i) x y])"
  using assms
proof (induction ships arbitrary: i)
  case Nil
  then show ?case by simp
next
  case (Cons s ships)
  show ?case
  proof (cases i)
    case 0
    with Cons.prems show ?thesis by (simp add: Let_def)
  next
    case (Suc k)
    with Cons.prems have first: "\<not> is_on_coordinate s x y" by auto
    from Suc Cons.prems have k: "k < length ships" "is_on_coordinate (ships ! k) x y"
      by simp_all
    from Suc Cons.prems have "\<forall>j < k. \<not> is_on_coordinate (ships ! j) x y" by auto
    from Cons.IH [OF k this] first Suc show ?thesis by simp
  qed
qed

lemma attack_ships_pointwise:
  "length (snd (attack_ships ships x y)) = length ships
   \<and> (\<forall>k < length ships. snd (attack_ships ships x y) ! k = ships ! k
        \<or> snd (attack_ships ships x y) ! k = gets_damage_at (ships ! k) x y)"
proof (induction ships)
  case Nil
  then show ?case by simp
next
  case (Cons s ships)
  show ?case
  proof (cases "is_on_coordinate s x y")
    case True
    then show ?thesis by (auto simp: Let_def nth_Cons split: nat.splits)
  next
    case False
    with Cons.IH show ?thesis
      by (auto simp: nth_Cons split: prod.splits nat.splits)
  qed
qed

lemma is_attacked_at_previous_shots:
  "set_coordinates_previous_shots (snd (is_attacked_at b x y))
     = set_coordinates_previous_shots b"
  by (simp add: is_attacked_at_def split: prod.splits)

lemma is_attacked_at_list_ships:
  "list_ships (snd (is_attacked_at b x y)) = snd (attack_ships (list_ships b) x y)"
  by (simp add: is_attacked_at_def split: prod.splits)

lemma fleet_wf_attack:
  assumes "fleet_wf ships"
  shows "fleet_wf (snd (attack_ships ships x y))"
proof -
  let ?ships' = "snd (attack_ships ships x y)"
  have len: "length ?ships' = length ships"
    and pt: "\<And>k. k < length ships \<Longrightarrow>
        ?ships' ! k = ships ! k \<or> ?ships' ! k = gets_damage_at (ships ! k) x y"
    using attack_ships_pointwise [of ships x y] by simp_all
  have wf: "ship_wf (ships ! k)" if "k < length ships" for k
    using assms that by (simp add: fleet_wf_def)
  have "ship_wf s" if "s \<in> set ?ships'" for s
  proof -
    from that obtain k where k: "k < length ships" "s = ?ships' ! k"
      by (auto simp: in_set_conv_nth len)
    with pt [OF k(1)] wf [OF k(1)] show ?thesis
      by (auto simp: gets_damage_at_wf)
  qed
  moreover have "\<not> is_near_ship (?ships' ! i) (?ships' ! j)"
    if "i < j" "j < length ?ships'" for i j
  proof -
    from that have ij: "i < length ships" "j < length ships" by (simp_all add: len)
    have "\<not> is_near_ship (ships ! i) (ships ! j)"
      using assms that by (simp add: fleet_wf_def len)
    with pt [OF ij(1)] pt [OF ij(2)] show ?thesis by auto
  qed
  ultimately show ?thesis by (simp add: fleet_wf_def)
qed

lemma board_reachable_fleet_wf: "board_reachable b \<Longrightarrow> fleet_wf (list_ships b)"
proof (induction rule: board_reachable.induct)
  case (built ships b)
  then have b: "list_ships b = ships"
    and far: "\<not> (\<exists>i j. i < j \<and> j < length ships \<and> is_near_ship (ships ! i) (ships ! j))"
    by (auto simp: Board_init_cases split: if_splits)
  from built.hyps(1) have "\<forall>s \<in> set ships. ship_wf s"
    by (simp add: ship_reachable_wf)
  with far show ?case by (simp add: fleet_wf_def b)
next
  case (attacked b x y)
  then show ?case by (simp add: is_attacked_at_list_ships fleet_wf_attack)
qed

lemma fleet_wf_unique:
  assumes "fleet_wf ships" "i < length ships" "j < length ships" "i \<noteq> j"
    "is_on_coordinate (ships ! i) x y"
  shows "\<not> is_on_coordinate (ships ! j) x y"
proof -
  have wi: "ship_wf (ships ! i)" and wj: "ship_wf (ships ! j)"
    using assms by (simp_all add: fleet_wf_def)
  have "\<not> is_near_ship (ships ! i) (ships ! j)"
  proof (cases "i < j")
    case True
    with assms show ?thesis by (simp add: fleet_wf_def)
  next
    case False
    with assms have "j < i" by simp
    with assms have "\<not> is_near_ship (ships ! j) (ships ! i)" by (simp add: fleet_wf_def)
    then show ?thesis using is_near_ship_sym [OF wi wj] by simp
  qed
  then show ?thesis using not_near_disjoint [OF wi _ assms(5)] by blast
qed

text \<open>
  C3. On a board a program can hold: when the ship at position \<open>i\<close> of the list occupies
  the attacked coordinate, no other ship does, \<^verbatim>\<open>is_attacked_at\<close> replaces exactly that
  ship by its damaged state (which is damaged at the coordinate) and returns
  \<open>(True, s)\<close>, where \<open>s\<close> holds exactly when every occupied cell of that ship is then
  damaged, that is when all its cells other than the attacked one were damaged before;
  when no ship occupies the coordinate it returns \<open>(False, False)\<close> and the board is
  unchanged.
\<close>

theorem is_attacked_at_hit_or_miss:
  assumes "board_reachable b"
  shows "(\<forall>i < length (list_ships b). is_on_coordinate (list_ships b ! i) x y \<longrightarrow>
            (\<forall>j < length (list_ships b). j \<noteq> i \<longrightarrow> \<not> is_on_coordinate (list_ships b ! j) x y)
            \<and> is_attacked_at b x y =
                ((True, has_sunk (gets_damage_at (list_ships b ! i) x y)),
                 b \<lparr> list_ships := (list_ships b)[i := gets_damage_at (list_ships b ! i) x y] \<rparr>)
            \<and> is_damaged_at (gets_damage_at (list_ships b ! i) x y) x y
            \<and> (has_sunk (gets_damage_at (list_ships b ! i) x y) \<longleftrightarrow>
                 set_coordinates_damages (gets_damage_at (list_ships b ! i) x y)
                   = get_all_coordinates (list_ships b ! i))
            \<and> (has_sunk (gets_damage_at (list_ships b ! i) x y) \<longleftrightarrow>
                 get_all_coordinates (list_ships b ! i) - {(x, y)}
                   \<subseteq> set_coordinates_damages (list_ships b ! i)))
    \<and> ((\<forall>s \<in> set (list_ships b). \<not> is_on_coordinate s x y) \<longrightarrow>
          is_attacked_at b x y = ((False, False), b))"
proof -
  have miss: "(\<forall>s \<in> set (list_ships b). \<not> is_on_coordinate s x y) \<longrightarrow>
      is_attacked_at b x y = ((False, False), b)"
    by (simp add: is_attacked_at_def attack_ships_miss)
  have hit: "(\<forall>j < length (list_ships b). j \<noteq> i \<longrightarrow> \<not> is_on_coordinate (list_ships b ! j) x y)
      \<and> is_attacked_at b x y =
          ((True, has_sunk (gets_damage_at (list_ships b ! i) x y)),
           b \<lparr> list_ships := (list_ships b)[i := gets_damage_at (list_ships b ! i) x y] \<rparr>)
      \<and> is_damaged_at (gets_damage_at (list_ships b ! i) x y) x y
      \<and> (has_sunk (gets_damage_at (list_ships b ! i) x y) \<longleftrightarrow>
           set_coordinates_damages (gets_damage_at (list_ships b ! i) x y)
             = get_all_coordinates (list_ships b ! i))
      \<and> (has_sunk (gets_damage_at (list_ships b ! i) x y) \<longleftrightarrow>
           get_all_coordinates (list_ships b ! i) - {(x, y)}
             \<subseteq> set_coordinates_damages (list_ships b ! i))"
    if i: "i < length (list_ships b)" and on: "is_on_coordinate (list_ships b ! i) x y" for i
  proof -
    let ?s = "list_ships b ! i"
    let ?s' = "gets_damage_at ?s x y"
    have fw: "fleet_wf (list_ships b)" using assms by (rule board_reachable_fleet_wf)
    have wf: "ship_wf ?s" using fw i by (simp add: fleet_wf_def)
    have wf': "ship_wf ?s'" using wf by (rule gets_damage_at_wf)
    have uniq: "\<forall>j < length (list_ships b). j \<noteq> i \<longrightarrow> \<not> is_on_coordinate (list_ships b ! j) x y"
      using fleet_wf_unique [OF fw i _ _ on] by blast
    then have "\<forall>j < i. \<not> is_on_coordinate (list_ships b ! j) x y" using i by auto
    from attack_ships_hit [OF i on this]
    have res: "is_attacked_at b x y =
        ((True, has_sunk ?s'), b \<lparr> list_ships := (list_ships b)[i := ?s'] \<rparr>)"
      by (simp add: is_attacked_at_def)
    have there: "is_damaged_at ?s' x y"
      using on by (simp add: gets_damage_at_def is_damaged_at_def)
    have sunk: "has_sunk ?s' \<longleftrightarrow> set_coordinates_damages ?s' = get_all_coordinates ?s"
      using ship_wf_has_sunk [OF wf'] by simp
    have dmg: "set_coordinates_damages ?s' = insert (x, y) (set_coordinates_damages ?s)"
      using on by (simp add: gets_damage_at_def)
    have sub: "set_coordinates_damages ?s \<subseteq> get_all_coordinates ?s"
      using wf by (simp add: ship_wf_def)
    have here: "(x, y) \<in> get_all_coordinates ?s"
      using on by (simp add: is_on_coordinate_def)
    have last: "has_sunk ?s' \<longleftrightarrow>
        get_all_coordinates ?s - {(x, y)} \<subseteq> set_coordinates_damages ?s"
      unfolding sunk dmg using sub here by blast
    from uniq res there sunk last show ?thesis by (intro conjI)
  qed
  from hit miss show ?thesis by (intro conjI allI impI) blast+
qed

lemma main_board_reachable: "board_reachable main_board"
proof -
  have "\<forall>s \<in> set main_ships. ship_reachable s"
    using main_ships_init by (rule Ships_init_reachable)
  then show ?thesis using main_board_init by (rule built)
qed

theorem is_attacked_at_hit_or_miss_witness:
  "board_reachable main_board
   \<and> is_on_coordinate (list_ships main_board ! 1) 3 3
   \<and> is_attacked_at main_board 3 3 =
       ((True, False),
        main_board \<lparr> list_ships :=
          (list_ships main_board)[1 := gets_damage_at (list_ships main_board ! 1) 3 3] \<rparr>)
   \<and> list_all (\<lambda>s. \<not> is_on_coordinate s 10 9) (list_ships main_board)
   \<and> is_attacked_at main_board 10 9 = ((False, False), main_board)"
proof -
  note r = main_board_reachable
  have len: "1 < length (list_ships main_board)" by code_simp
  have on: "is_on_coordinate (list_ships main_board ! 1) 3 3" by code_simp
  have afloat: "\<not> has_sunk (gets_damage_at (list_ships main_board ! 1) 3 3)" by code_simp
  have miss: "\<forall>s \<in> set (list_ships main_board). \<not> is_on_coordinate s 10 9" by code_simp
  note hit = is_attacked_at_hit_or_miss [OF r, of 3 3, THEN conjunct1, rule_format, OF len on]
  note water = is_attacked_at_hit_or_miss [OF r, of 10 9, THEN conjunct2, THEN mp, OF miss]
  from r on miss hit water afloat show ?thesis by (simp add: list_all_iff)
qed

subsection \<open>The shot history\<close>

text \<open>
  C1. \<^verbatim>\<open>Board.is_attacked_at\<close> leaves \<^verbatim>\<open>set_coordinates_previous_shots\<close> as it was, for
  every board and coordinate: the set is created empty by the constructor, read by the two
  printing methods, and written by nothing. On the board \<open>main_board\<close> the shot at \<open>(10, 9)\<close> is
  not in the set after the attack.
\<close>

theorem is_attacked_at_records_no_shot:
  "set_coordinates_previous_shots (snd (is_attacked_at b x y))
     = set_coordinates_previous_shots b
   \<and> Board_init main_ships = Inr main_board
   \<and> (10, 9) \<notin> set_coordinates_previous_shots (snd (is_attacked_at main_board 10 9))"
  by (simp add: is_attacked_at_previous_shots main_board_init) (simp add: main_board_def)

subsection \<open>Attacks outside the board\<close>

text \<open>
  C10, as the code has it. The constructors accept ships anywhere on the integer plane:
  the fleet \<open>offside_ships\<close> passes \<^verbatim>\<open>Board.__init__\<close>, and the attack at \<open>(11, 3)\<close>,
  outside the board, hits its longest ship.
\<close>

lemma offside_ships_init: "Ships_init offside_corners = Inr offside_ships"
  by code_simp

lemma offside_board_init: "Board_init offside_ships = Inr offside_board"
  by code_simp

theorem is_attacked_at_off_board_counterexample:
  "board_reachable offside_board
   \<and> \<not> on_board (11, 3)
   \<and> fst (is_attacked_at offside_board 11 3) = (True, False)
   \<and> snd (is_attacked_at offside_board 11 3) \<noteq> offside_board"
proof -
  have "\<forall>s \<in> set offside_ships. ship_reachable s"
    using offside_ships_init by (rule Ships_init_reachable)
  then have "board_reachable offside_board" using offside_board_init by (rule built)
  moreover have "\<not> on_board (11, 3)" by code_simp
  moreover have "fst (is_attacked_at offside_board 11 3) = (True, False)" by code_simp
  moreover have "snd (is_attacked_at offside_board 11 3) \<noteq> offside_board" by code_simp
  ultimately show ?thesis by simp
qed

text \<open>
  C10, amended. On a board all of whose ships lie on the board, an attack at a coordinate
  outside the board returns \<open>(False, False)\<close> and changes nothing: no ship, no damage set
  and no other field. No error is raised: \<^verbatim>\<open>is_attacked_at\<close> has no error result.
\<close>

theorem is_attacked_at_off_board:
  assumes "\<forall>s \<in> set (list_ships b). \<forall>c \<in> get_all_coordinates s. on_board c"
    and "\<not> on_board (x, y)"
  shows "is_attacked_at b x y = ((False, False), b)"
proof -
  have "\<forall>s \<in> set (list_ships b). \<not> is_on_coordinate s x y"
    using assms by (auto simp: is_on_coordinate_def)
  then show ?thesis by (simp add: is_attacked_at_def attack_ships_miss)
qed

theorem is_attacked_at_off_board_witness:
  "list_all (\<lambda>s. get_all_coordinates s \<subseteq> Collect on_board) (list_ships main_board)
   \<and> \<not> on_board (11, 3)
   \<and> is_attacked_at main_board 11 3 = ((False, False), main_board)"
proof -
  have ships: "\<forall>s \<in> set (list_ships main_board). \<forall>c \<in> get_all_coordinates s. on_board c"
    by code_simp
  have off: "\<not> on_board (11, 3)" by code_simp
  from ships off is_attacked_at_off_board [OF ships off] show ?thesis
    by (auto simp: list_all_iff)
qed

subsection \<open>The automatic fleet\<close>

lemma choice_in_set: "choice seq r = Inr x \<Longrightarrow> x \<in> set seq"
  by (auto simp: choice_def split: if_splits)

lemma free_coords_init_on_board: "\<forall>c \<in> set free_coords_init. on_board c"
  by code_simp

lemma Ship_init_length:
  assumes "1 \<le> len"
    and "e \<in> set [(x + (len - 1), y), (x, y + (len - 1)), (x - (len - 1), y),
                   (x, y - (len - 1))]"
    and "Ship_init (x, y) e = Inr s"
  shows "length_ship s = len"
proof -
  from assms(2) consider "e = (x + (len - 1), y)" | "e = (x, y + (len - 1))"
    | "e = (x - (len - 1), y)" | "e = (x, y - (len - 1))" by auto
  then show ?thesis
  proof cases
    case 1
    with assms(1,3) show ?thesis
      by (auto simp: Ship_init_def Let_def length_ship_def is_vertical_def is_horizontal_def
               split: if_splits)
  next
    case 2
    with assms(1,3) show ?thesis
      by (auto simp: Ship_init_def Let_def length_ship_def is_vertical_def is_horizontal_def
               split: if_splits)
  next
    case 3
    with assms(1,3) show ?thesis
      by (auto simp: Ship_init_def Let_def length_ship_def is_vertical_def is_horizontal_def
               split: if_splits)
  next
    case 4
    with assms(1,3) show ?thesis
      by (auto simp: Ship_init_def Let_def length_ship_def is_vertical_def is_horizontal_def
               split: if_splits)
  qed
qed

lemma gen_inv_append:
  assumes inv: "gen_inv free_coords ships"
    and new: "Ship_init a e = Inr new_ship"
    and sub: "get_all_coordinates new_ship \<subseteq> set free_coords"
    and far: "\<forall>other \<in> set ships. \<not> is_near_ship new_ship other"
  shows "gen_inv (difference_update free_coords (get_all_coordinates new_ship))
           (ships @ [new_ship])"
proof -
  have rn: "ship_reachable new_ship" using new by (rule constructed)
  have wn: "ship_wf new_ship" using rn by (rule ship_reachable_wf)
  have free: "\<forall>c \<in> set free_coords. on_board c"
    and old: "\<forall>s \<in> set ships. ship_reachable s \<and> (\<forall>c \<in> get_all_coordinates s. on_board c)"
    and apart: "\<forall>i j. i < j \<and> j < length ships \<longrightarrow> \<not> is_near_ship (ships ! i) (ships ! j)"
    using inv by (simp_all add: gen_inv_def)
  have "\<forall>c \<in> set (difference_update free_coords (get_all_coordinates new_ship)). on_board c"
    using free by (simp add: difference_update_def)
  moreover have "\<forall>s \<in> set (ships @ [new_ship]).
      ship_reachable s \<and> (\<forall>c \<in> get_all_coordinates s. on_board c)"
    using old rn sub free by auto
  moreover have "\<not> is_near_ship ((ships @ [new_ship]) ! i) ((ships @ [new_ship]) ! j)"
    if ij: "i < j" "j < length (ships @ [new_ship])" for i j
  proof (cases "j < length ships")
    case True
    with ij apart show ?thesis by (simp add: nth_append)
  next
    case False
    with ij have j: "j = length ships" and i: "i < length ships" by simp_all
    have si: "ships ! i \<in> set ships" using i by simp
    then have wi: "ship_wf (ships ! i)" using old by (simp add: ship_reachable_wf)
    have "\<not> is_near_ship new_ship (ships ! i)" using far si by blast
    then have "\<not> is_near_ship (ships ! i) new_ship"
      using is_near_ship_sym [OF wi wn] by simp
    then show ?thesis using i j by (simp add: nth_append)
  qed
  ultimately show ?thesis by (simp add: gen_inv_def)
qed

lemma place_ship_result:
  assumes "place_ship rs len free_coords ships first_ship = Some (Inr ((free', ships', first'), rs'))"
    and "gen_inv free_coords ships" and "first_ship \<longrightarrow> ships = []" and "1 \<le> len"
  shows "gen_inv free' ships' \<and> \<not> first'
    \<and> (\<exists>new_ship. ships' = ships @ [new_ship] \<and> length_ship new_ship = len
          \<and> ship_wf new_ship
          \<and> free' = difference_update free_coords (get_all_coordinates new_ship))"
  using assms
proof (induction rs len free_coords ships first_ship rule: place_ship.induct)
  case (1 r1 r2 rs len free_coords ships first_ship)
  from "1.prems"(1) obtain start_coord where st: "choice free_coords r1 = Inr start_coord"
    by (auto split: sum.splits)
  let ?ends = "[(fst start_coord + (len - 1), snd start_coord),
                (fst start_coord, snd start_coord + (len - 1)),
                (fst start_coord - (len - 1), snd start_coord),
                (fst start_coord, snd start_coord - (len - 1))]"
  from "1.prems"(1) st obtain end_coord where en: "choice ?ends r2 = Inr end_coord"
    by (auto split: sum.splits)
  from "1.prems"(1) st en obtain new_ship where
    sh: "Ship_init start_coord end_coord = Inr new_ship"
    by (auto split: sum.splits)
  have len: "length_ship new_ship = len"
    using Ship_init_length [OF "1.prems"(4), of end_coord "fst start_coord" "snd start_coord"]
      choice_in_set [OF en] sh by simp
  have wf: "ship_wf new_ship" using sh by (rule Ship_init_wf)
  show ?case
  proof (cases "get_all_coordinates new_ship \<subseteq> set free_coords")
    case False
    with "1.prems"(1) st en sh
    have "place_ship rs len free_coords ships first_ship
        = Some (Inr ((free', ships', first'), rs'))" by simp
    from "1.IH"(1) [OF st en sh _ this "1.prems"(2,3,4)] False show ?thesis by simp
  next
    case sub: True
    show ?thesis
    proof (cases first_ship)
      case True
      with "1.prems"(1) st en sh sub
      have res: "free' = difference_update free_coords (get_all_coordinates new_ship)"
        "ships' = ships @ [new_ship]" "\<not> first'" by simp_all
      from True "1.prems"(3) have "\<forall>other \<in> set ships. \<not> is_near_ship new_ship other" by simp
      from gen_inv_append [OF "1.prems"(2) sh sub this] res len wf show ?thesis by simp
    next
      case nf: False
      show ?thesis
      proof (cases "list_ex (\<lambda>other_ship. is_near_ship new_ship other_ship) ships")
        case True
        with "1.prems"(1) st en sh sub nf
        have "place_ship rs len free_coords ships first_ship
            = Some (Inr ((free', ships', first'), rs'))" by simp
        from "1.IH"(2) [OF st en sh _ nf _ this "1.prems"(2,3,4)] sub True
        show ?thesis by simp
      next
        case False
        with "1.prems"(1) st en sh sub nf
        have res: "free' = difference_update free_coords (get_all_coordinates new_ship)"
          "ships' = ships @ [new_ship]" "\<not> first'" by simp_all
        from False have "\<forall>other \<in> set ships. \<not> is_near_ship new_ship other"
          by (simp add: list_ex_iff)
        from gen_inv_append [OF "1.prems"(2) sh sub this] res len wf show ?thesis by simp
      qed
    qed
  qed
qed simp_all

lemma place_ships_of_length_result:
  assumes "place_ships_of_length n rs len free_coords ships first_ship
      = Some (Inr ((free', ships', first'), rs'))"
    and "gen_inv free_coords ships" and "first_ship \<longrightarrow> ships = []" and "1 \<le> len"
  shows "gen_inv free' ships' \<and> (first' \<longrightarrow> ships' = [])
    \<and> (\<exists>news. ships' = ships @ news \<and> map length_ship news = replicate n len)"
  using assms
proof (induction n arbitrary: rs free_coords ships first_ship)
  case 0
  then show ?case by simp
next
  case (Suc n)
  from Suc.prems(1) obtain free1 ships1 first1 rs1 where
    one: "place_ship rs len free_coords ships first_ship
        = Some (Inr ((free1, ships1, first1), rs1))"
    and rest: "place_ships_of_length n rs1 len free1 ships1 first1
        = Some (Inr ((free', ships', first'), rs'))"
    by (auto split: option.splits sum.splits)
  from place_ship_result [OF one Suc.prems(2,3,4)] obtain new_ship where
    inv1: "gen_inv free1 ships1" and nf: "\<not> first1"
    and s1: "ships1 = ships @ [new_ship]" and l1: "length_ship new_ship = len"
    by blast
  from nf have "first1 \<longrightarrow> ships1 = []" by simp
  from Suc.IH [OF rest inv1 this Suc.prems(4)] obtain news where
    inv': "gen_inv free' ships'" and f': "first' \<longrightarrow> ships' = []"
    and s': "ships' = ships1 @ news" and l': "map length_ship news = replicate n len"
    by blast
  have "ships' = ships @ (new_ship # news)
      \<and> map length_ship (new_ship # news) = replicate (Suc n) len"
    using s1 s' l1 l' by simp
  with inv' f' show ?case by blast
qed

lemma place_all_result:
  assumes "place_all items rs free_coords ships first_ship = Some (Inr result)"
    and "gen_inv free_coords ships" and "first_ship \<longrightarrow> ships = []"
    and "\<forall>item \<in> set items. 1 \<le> fst item"
  shows "(\<exists>free'. gen_inv free' result)
    \<and> (\<exists>news. result = ships @ news
          \<and> map length_ship news
              = concat (map (\<lambda>item. replicate (length (py_range (snd item))) (fst item)) items))"
  using assms
proof (induction items arbitrary: rs free_coords ships first_ship)
  case Nil
  then show ?case by auto
next
  case (Cons item items)
  obtain len number where item: "item = (len, number)" by (cases item)
  from Cons.prems(1) obtain free1 ships1 first1 rs1 where
    one: "place_ships_of_length (length (py_range number)) rs len free_coords ships first_ship
        = Some (Inr ((free1, ships1, first1), rs1))"
    and rest: "place_all items rs1 free1 ships1 first1 = Some (Inr result)"
    unfolding item by (auto split: option.splits sum.splits)
  from Cons.prems(4) have len: "1 \<le> len" and lens: "\<forall>item \<in> set items. 1 \<le> fst item"
    by (simp_all add: item)
  from place_ships_of_length_result [OF one Cons.prems(2,3) len] obtain news1 where
    inv1: "gen_inv free1 ships1" and f1: "first1 \<longrightarrow> ships1 = []"
    and s1: "ships1 = ships @ news1"
    and l1: "map length_ship news1 = replicate (length (py_range number)) len"
    by blast
  from Cons.IH [OF rest inv1 f1 lens] obtain free' news where
    inv': "gen_inv free' result" and s': "result = ships1 @ news"
    and l': "map length_ship news
        = concat (map (\<lambda>item. replicate (length (py_range (snd item))) (fst item)) items)"
    by blast
  have "result = ships @ (news1 @ news)
      \<and> map length_ship (news1 @ news)
          = concat (map (\<lambda>item. replicate (length (py_range (snd item))) (fst item))
                      (item # items))"
    using s1 s' l1 l' by (simp add: item)
  with inv' show ?case by blast
qed

lemma generated_lengths:
  "concat (map (\<lambda>item. replicate (length (py_range (snd item))) (fst item))
             (rev DICT_NUMBER_SHIPS_PER_LENGTH)) = [5, 4, 3, 2, 1]"
  by code_simp

text \<open>
  No exception leaves the generator. \<^verbatim>\<open>random.choice\<close> raises only on an empty
  sequence, and the free cells cannot run out: a ship of length \<open>n\<close> takes \<open>n\<close> cells
  away, the five ships take 15 of the 90. The end of a candidate is in line with its start,
  so \<^verbatim>\<open>Ship.__init__\<close> does not raise either.
\<close>

lemma length_difference_update:
  assumes "distinct free_coords" "finite cells"
  shows "length free_coords \<le> length (difference_update free_coords cells) + card cells"
proof -
  have "length (filter (\<lambda>c. c \<in> cells) free_coords)
      = card (set (filter (\<lambda>c. c \<in> cells) free_coords))"
    using distinct_card [OF distinct_filter [OF assms(1)], of "\<lambda>c. c \<in> cells"] by simp
  also have "\<dots> \<le> card cells"
    using assms(2) by (intro card_mono) auto
  finally have taken: "length (filter (\<lambda>c. c \<in> cells) free_coords) \<le> card cells" .
  have "length free_coords
      = length (filter (\<lambda>c. c \<in> cells) free_coords)
        + length (filter (\<lambda>c. c \<notin> cells) free_coords)"
    using sum_length_filter_compl [of "\<lambda>c. c \<in> cells" free_coords] by simp
  with taken show ?thesis by (simp add: difference_update_def)
qed

lemma Ship_init_aligned:
  assumes "e \<in> set [(x + d, y), (x, y + d), (x - d, y), (x, y - d)]"
  shows "Ship_init (x, y) e \<noteq> Inl err"
proof -
  from assms have "fst e = x \<or> snd e = y" by auto
  then show ?thesis
    by (auto simp: Ship_init_def Let_def is_horizontal_def is_vertical_def)
qed

lemma place_ship_raises:
  "place_ship rs len free_coords ships first_ship = Some (Inl e) \<Longrightarrow> free_coords = []"
proof (induction rs len free_coords ships first_ship rule: place_ship.induct)
  case (1 r1 r2 rs len free_coords ships first_ship)
  show ?case
  proof (rule ccontr)
    assume ne: "free_coords \<noteq> []"
    then obtain start_coord where st: "choice free_coords r1 = Inr start_coord"
      by (simp add: choice_def)
    let ?ends = "[(fst start_coord + (len - 1), snd start_coord),
                  (fst start_coord, snd start_coord + (len - 1)),
                  (fst start_coord - (len - 1), snd start_coord),
                  (fst start_coord, snd start_coord - (len - 1))]"
    obtain end_coord where en: "choice ?ends r2 = Inr end_coord"
      by (simp add: choice_def)
    have "Ship_init (fst start_coord, snd start_coord) end_coord \<noteq> Inl err" for err
      using choice_in_set [OF en] by (rule Ship_init_aligned)
    then obtain new_ship where sh: "Ship_init start_coord end_coord = Inr new_ship"
      by (cases "Ship_init start_coord end_coord") auto
    show False
    proof (cases "get_all_coordinates new_ship \<subseteq> set free_coords")
      case False
      with "1.prems" st en sh
      have "place_ship rs len free_coords ships first_ship = Some (Inl e)" by simp
      from "1.IH"(1) [OF st en sh _ this] False ne show False by simp
    next
      case sub: True
      show False
      proof (cases "first_ship
          \<or> \<not> list_ex (\<lambda>other_ship. is_near_ship new_ship other_ship) ships")
        case True
        with "1.prems" st en sh sub show False by (auto split: if_splits)
      next
        case False
        with "1.prems" st en sh sub
        have "place_ship rs len free_coords ships first_ship = Some (Inl e)" by simp
        from "1.IH"(2) [OF st en sh _ _ _ this] sub False ne show False by simp
      qed
    qed
  qed
qed simp_all

lemma place_ship_room:
  assumes "place_ship rs len free_coords ships first_ship
      = Some (Inr ((free', ships', first'), rs'))"
    and "gen_inv free_coords ships" and "first_ship \<longrightarrow> ships = []" and "1 \<le> len"
    and "distinct free_coords"
  shows "distinct free' \<and> length free_coords \<le> length free' + nat len"
proof -
  from place_ship_result [OF assms(1,2,3,4)] obtain new_ship where
    len: "length_ship new_ship = len" and wf: "ship_wf new_ship"
    and free': "free' = difference_update free_coords (get_all_coordinates new_ship)"
    by blast
  have "card (get_all_coordinates new_ship) = nat len"
    using ship_wf_card [OF wf] len by simp
  with length_difference_update [OF assms(5) finite_get_all_coordinates, of new_ship]
  have "length free_coords \<le> length free' + nat len" by (simp add: free')
  moreover have "distinct free'" using assms(5) by (simp add: free' difference_update_def)
  ultimately show ?thesis by simp
qed

lemma place_ships_of_length_raises:
  assumes "gen_inv free_coords ships" and "first_ship \<longrightarrow> ships = []" and "1 \<le> len"
    and "distinct free_coords" and "n * nat len \<le> length free_coords"
  shows "place_ships_of_length n rs len free_coords ships first_ship \<noteq> Some (Inl e)
    \<and> (\<forall>free' ships' first' rs'.
          place_ships_of_length n rs len free_coords ships first_ship
            = Some (Inr ((free', ships', first'), rs'))
          \<longrightarrow> distinct free' \<and> length free_coords \<le> length free' + n * nat len)"
  using assms
proof (induction n arbitrary: rs free_coords ships first_ship)
  case 0
  then show ?case by simp
next
  case (Suc n)
  from Suc.prems(3,5) have room: "free_coords \<noteq> []" by auto
  show ?case
  proof (cases "place_ship rs len free_coords ships first_ship")
    case None
    then show ?thesis by simp
  next
    case (Some res)
    show ?thesis
    proof (cases res)
      case (Inl err)
      with Some place_ship_raises [of rs len free_coords ships first_ship err] room
      show ?thesis by simp
    next
      case (Inr st)
      obtain free1 ships1 first1 rs1 where st: "st = ((free1, ships1, first1), rs1)"
        by (cases st) auto
      have one: "place_ship rs len free_coords ships first_ship
          = Some (Inr ((free1, ships1, first1), rs1))"
        using Some Inr st by simp
      from place_ship_result [OF one Suc.prems(1,2,3)]
      have inv1: "gen_inv free1 ships1" and f1: "first1 \<longrightarrow> ships1 = []" by auto
      from place_ship_room [OF one Suc.prems(1,2,3,4)]
      have d1: "distinct free1" and l1: "length free_coords \<le> length free1 + nat len"
        by simp_all
      from l1 Suc.prems(5) have "n * nat len \<le> length free1" by simp
      from Suc.IH [OF inv1 f1 Suc.prems(3) d1 this, of rs1] l1 one
      show ?thesis by auto
    qed
  qed
qed

lemma place_all_raises:
  assumes "gen_inv free_coords ships" and "first_ship \<longrightarrow> ships = []"
    and "\<forall>item \<in> set items. 1 \<le> fst item" and "distinct free_coords"
    and "(\<Sum>item \<leftarrow> items. length (py_range (snd item)) * nat (fst item))
           \<le> length free_coords"
  shows "place_all items rs free_coords ships first_ship \<noteq> Some (Inl e)"
  using assms
proof (induction items arbitrary: rs free_coords ships first_ship)
  case Nil
  then show ?case by simp
next
  case (Cons item items)
  obtain len number where item: "item = (len, number)" by (cases item)
  let ?n = "length (py_range number)"
  from Cons.prems(3) have len: "1 \<le> len" and lens: "\<forall>item \<in> set items. 1 \<le> fst item"
    by (simp_all add: item)
  from Cons.prems(5) have here: "?n * nat len \<le> length free_coords"
    and later: "?n * nat len
        + (\<Sum>item \<leftarrow> items. length (py_range (snd item)) * nat (fst item))
        \<le> length free_coords"
    by (simp_all add: item)
  note step = place_ships_of_length_raises [OF Cons.prems(1,2) len Cons.prems(4) here]
  show ?case
  proof (cases "place_ships_of_length ?n rs len free_coords ships first_ship")
    case None
    then show ?thesis by (simp add: item)
  next
    case (Some res)
    show ?thesis
    proof (cases res)
      case (Inl err)
      with Some step [of rs err] show ?thesis by simp
    next
      case (Inr st)
      obtain free1 ships1 first1 rs1 where st: "st = ((free1, ships1, first1), rs1)"
        by (cases st) auto
      have one: "place_ships_of_length ?n rs len free_coords ships first_ship
          = Some (Inr ((free1, ships1, first1), rs1))"
        using Some Inr st by simp
      from place_ships_of_length_result [OF one Cons.prems(1,2) len]
      have inv1: "gen_inv free1 ships1" and f1: "first1 \<longrightarrow> ships1 = []" by auto
      from step [of rs e] one
      have d1: "distinct free1" and l1: "length free_coords \<le> length free1 + ?n * nat len"
        by auto
      from l1 later
      have "(\<Sum>item \<leftarrow> items. length (py_range (snd item)) * nat (fst item))
          \<le> length free1" by simp
      from Cons.IH [OF inv1 f1 lens d1 this, of rs1] one show ?thesis
        by (simp add: item)
    qed
  qed
qed

lemma free_coords_init_room:
  "distinct free_coords_init
   \<and> (\<Sum>item \<leftarrow> rev DICT_NUMBER_SHIPS_PER_LENGTH. length (py_range (snd item)) * nat (fst item))
       \<le> length free_coords_init"
  by code_simp

lemma generate_ships_automatically_raises_nothing:
  "generate_ships_automatically rs \<noteq> Some (Inl e)"
proof -
  have start: "gen_inv free_coords_init []"
    using free_coords_init_on_board by (simp add: gen_inv_def)
  have lens: "\<forall>item \<in> set (rev DICT_NUMBER_SHIPS_PER_LENGTH). 1 \<le> fst item"
    by (simp add: DICT_NUMBER_SHIPS_PER_LENGTH_def)
  from free_coords_init_room have d: "distinct free_coords_init"
    and room: "(\<Sum>item \<leftarrow> rev DICT_NUMBER_SHIPS_PER_LENGTH.
        length (py_range (snd item)) * nat (fst item)) \<le> length free_coords_init"
    by simp_all
  from place_all_raises [OF start _ lens d room, of True rs e] show ?thesis
    by (simp add: generate_ships_automatically_def)
qed

text \<open>
  C5. Whatever numbers are drawn, \<^verbatim>\<open>generate_ships_automatically\<close> raises no
  exception, and whenever it returns, its result is five ships of lengths 5, 4, 3, 2, 1 in
  this order, each built by the constructor with all its cells on the board, no two of them
  near each other, and \<^verbatim>\<open>Board.__init__\<close> accepts the list.
\<close>

theorem generate_ships_automatically_valid:
  "generate_ships_automatically rs \<noteq> Some (Inl e)
   \<and> (generate_ships_automatically rs = Some (Inr ships) \<longrightarrow>
        length ships = 5
      \<and> map length_ship ships = [5, 4, 3, 2, 1]
      \<and> mset (map length_ship ships) = {#1, 2, 3, 4, 5#}
      \<and> (\<forall>s \<in> set ships. ship_reachable s \<and> (\<forall>c \<in> get_all_coordinates s. on_board c))
      \<and> (\<forall>i j. i < length ships \<and> j < length ships \<and> i \<noteq> j
            \<longrightarrow> \<not> is_near_ship (ships ! i) (ships ! j))
      \<and> \<not> are_some_ships_too_close_from_each_other
            \<lparr> list_ships = ships, set_coordinates_previous_shots = {},
              ship_lengths = map length_ship ships \<rparr>
      \<and> Board_init ships = Inr \<lparr> list_ships = ships, set_coordinates_previous_shots = {},
                                 ship_lengths = map length_ship ships \<rparr>
      \<and> BoardAutomatic_init rs = Some (Inr \<lparr> list_ships = ships,
                                 set_coordinates_previous_shots = {},
                                 ship_lengths = map length_ship ships \<rparr>))"
proof (rule conjI [OF _ impI])
  show "generate_ships_automatically rs \<noteq> Some (Inl e)"
    by (rule generate_ships_automatically_raises_nothing)
next
  assume returned: "generate_ships_automatically rs = Some (Inr ships)"
  have start: "gen_inv free_coords_init []"
    using free_coords_init_on_board by (simp add: gen_inv_def)
  have lens: "\<forall>item \<in> set (rev DICT_NUMBER_SHIPS_PER_LENGTH). 1 \<le> fst item"
    by (simp add: DICT_NUMBER_SHIPS_PER_LENGTH_def)
  from returned have "place_all (rev DICT_NUMBER_SHIPS_PER_LENGTH) rs free_coords_init [] True
      = Some (Inr ships)" by (simp add: generate_ships_automatically_def)
  from place_all_result [OF this start _ lens] obtain free' where
    inv: "gen_inv free' ships" and ls: "map length_ship ships = [5, 4, 3, 2, 1]"
    by (auto simp: generated_lengths)
  from ls have "length (map length_ship ships) = 5" by simp
  then have five: "length ships = 5" by simp
  have ms: "mset (map length_ship ships) = {#1, 2, 3, 4, 5#}"
    unfolding ls by simp
  have cells: "\<forall>s \<in> set ships. ship_reachable s \<and> (\<forall>c \<in> get_all_coordinates s. on_board c)"
    and ordered: "\<forall>i j. i < j \<and> j < length ships \<longrightarrow> \<not> is_near_ship (ships ! i) (ships ! j)"
    using inv by (simp_all add: gen_inv_def)
  have wf: "ship_wf (ships ! i)" if "i < length ships" for i
    using cells that by (simp add: ship_reachable_wf)
  have apart: "\<not> is_near_ship (ships ! i) (ships ! j)"
    if "i < length ships" "j < length ships" "i \<noteq> j" for i j
  proof (cases "i < j")
    case True
    with ordered that show ?thesis by simp
  next
    case False
    with that have "j < i" by simp
    with ordered that have "\<not> is_near_ship (ships ! j) (ships ! i)" by simp
    then show ?thesis using is_near_ship_sym [OF wf wf, of i j] that by simp
  qed
  have close: "\<not> are_some_ships_too_close_from_each_other
          \<lparr> list_ships = ships, set_coordinates_previous_shots = {},
            ship_lengths = map length_ship ships \<rparr>"
    using ordered by (simp add: too_close_iff)
  have board: "Board_init ships = Inr \<lparr> list_ships = ships,
      set_coordinates_previous_shots = {}, ship_lengths = map length_ship ships \<rparr>"
    using ms ordered by (simp add: Board_init_cases)
  have auto: "BoardAutomatic_init rs = Some (Inr \<lparr> list_ships = ships,
      set_coordinates_previous_shots = {}, ship_lengths = map length_ship ships \<rparr>)"
    using returned board by (simp add: BoardAutomatic_init_def)
  from five ls ms cells apart close board auto
  show "length ships = 5
      \<and> map length_ship ships = [5, 4, 3, 2, 1]
      \<and> mset (map length_ship ships) = {#1, 2, 3, 4, 5#}
      \<and> (\<forall>s \<in> set ships. ship_reachable s \<and> (\<forall>c \<in> get_all_coordinates s. on_board c))
      \<and> (\<forall>i j. i < length ships \<and> j < length ships \<and> i \<noteq> j
            \<longrightarrow> \<not> is_near_ship (ships ! i) (ships ! j))
      \<and> \<not> are_some_ships_too_close_from_each_other
            \<lparr> list_ships = ships, set_coordinates_previous_shots = {},
              ship_lengths = map length_ship ships \<rparr>
      \<and> Board_init ships = Inr \<lparr> list_ships = ships, set_coordinates_previous_shots = {},
                                 ship_lengths = map length_ship ships \<rparr>
      \<and> BoardAutomatic_init rs = Some (Inr \<lparr> list_ships = ships,
                                 set_coordinates_previous_shots = {},
                                 ship_lengths = map length_ship ships \<rparr>)"
    by blast
qed

lemma example_fleet_generated:
  "generate_ships_automatically example_draws = Some (Inr example_fleet)"
  by code_simp

lemma example_fleet_corners:
  "map (\<lambda>s. ((x_start s, y_start s), (x_end s, y_end s))) example_fleet
   = [((1, 2), (1, 6)), ((3, 4), (3, 7)), ((5, 4), (7, 4)), ((7, 10), (8, 10)),
      ((10, 4), (10, 4))]"
  by code_simp

theorem generate_ships_automatically_valid_witness:
  "generate_ships_automatically example_draws = Some (Inr example_fleet)
   \<and> map (\<lambda>s. ((x_start s, y_start s), (x_end s, y_end s))) example_fleet
       = [((1, 2), (1, 6)), ((3, 4), (3, 7)), ((5, 4), (7, 4)), ((7, 10), (8, 10)),
          ((10, 4), (10, 4))]
   \<and> map length_ship example_fleet = [5, 4, 3, 2, 1]
   \<and> list_all (\<lambda>s. get_all_coordinates s \<subseteq> Collect on_board) example_fleet
   \<and> Board_init example_fleet
       = Inr \<lparr> list_ships = example_fleet, set_coordinates_previous_shots = {},
               ship_lengths = map length_ship example_fleet \<rparr>"
  using generate_ships_automatically_valid [of example_draws IndexError example_fleet]
    example_fleet_generated example_fleet_corners
  by (auto simp: list_all_iff)

subsection \<open>The free cells at the start\<close>

text \<open>
  C2. \<^verbatim>\<open>set(permutations(range(1,11), 2))\<close> holds the pairs of two different numbers
  from 1 to 10: 90 cells, all on the board, none with equal coordinates. The ten cells
  \<open>(1, 1)\<close> to \<open>(10, 10)\<close> of the board are never free.
\<close>

theorem free_coords_init_misses_diagonal:
  "length free_coords_init = 90
   \<and> distinct free_coords_init
   \<and> list_all (\<lambda>c. on_board c \<and> fst c \<noteq> snd c) free_coords_init
   \<and> on_board (1, 1) \<and> (1, 1) \<notin> set free_coords_init
   \<and> list_all (\<lambda>k. on_board (k, k) \<and> (k, k) \<notin> set free_coords_init) [1..10]"
  by code_simp

subsection \<open>The hunting player\<close>

declare hunt.simps [simp del]

lemma hunt_in_coords:
  "hunt rs x y coords c = Some (Inr (c', rs')) \<Longrightarrow> c' \<in> set coords"
proof (induction rs x y coords c rule: hunt.induct)
  case (1 rs x y coords c)
  show ?case
  proof (cases "c \<in> set coords")
    case True
    with "1.prems" show ?thesis by (simp add: hunt.simps [of rs x y coords c])
  next
    case False
    with "1.prems" obtain r1 r2 rest far c2 where
      rs: "rs = r1 # r2 # rest" and far: "choice coords r1 = Inr far"
      and c2: "choice [(x + 1, y), (x - 1, y), (x, y + 1), (x, y - 1), far] r2 = Inr c2"
      and rec: "hunt rest x y coords c2 = Some (Inr (c', rs'))"
      by (auto simp: hunt.simps [of rs x y coords c] split: list.splits sum.splits)
    from "1.IH" [OF False rs refl far c2 rec] show ?thesis .
  qed
qed

lemma draw_choice_in_seq: "draw_choice seq rs = Some (Inr (c, rs')) \<Longrightarrow> c \<in> set seq"
  by (auto simp: draw_choice_def choice_def split: list.splits if_splits)

lemma distinct_all_coords: "distinct all_coords"
  by code_simp

lemma all_coords_on_board: "\<forall>c \<in> set all_coords. on_board c"
  by code_simp

lemma PlayerAutomatic_init_inv:
  assumes "PlayerAutomatic_init r = Inr p"
  shows "auto_inv [] p"
proof -
  from assms obtain c where c: "choice all_coords r = Inr c"
    and p: "p = \<lparr> list_coords_to_attack = all_coords, first_go = True, coord_to_attack = c \<rparr>"
    by (auto simp: PlayerAutomatic_init_def split: sum.splits)
  from choice_in_set [OF c] distinct_all_coords all_coords_on_board show ?thesis
    by (simp add: auto_inv_def p)
qed

text \<open>What a call after the first one returns.\<close>

lemma select_later:
  assumes nf: "\<not> first_go p"
    and sel: "select_coordinates_to_attack p opponents_ships rs = Some (Inr (c, p', rs'))"
  shows "coord_to_attack p \<in> set (list_coords_to_attack p)
    \<and> (\<exists>coords. p' = p \<lparr> list_coords_to_attack := coords, coord_to_attack := c \<rparr>
          \<and> c \<in> set coords
          \<and> (coords = remove1 (coord_to_attack p) (list_coords_to_attack p)
             \<or> coords = filter (\<lambda>coord. coord \<notin> set (diag_coords (fst (coord_to_attack p))
                                                         (snd (coord_to_attack p))))
                          (remove1 (coord_to_attack p) (list_coords_to_attack p)))
          \<and> (did_we_just_hit_a_ship (fst (coord_to_attack p)) (snd (coord_to_attack p))
                opponents_ships
              \<longrightarrow> coords = filter (\<lambda>coord. coord \<notin> set (diag_coords (fst (coord_to_attack p))
                                                         (snd (coord_to_attack p))))
                          (remove1 (coord_to_attack p) (list_coords_to_attack p))))"
proof -
  let ?x = "fst (coord_to_attack p)" and ?y = "snd (coord_to_attack p)"
  let ?removed = "remove1 (coord_to_attack p) (list_coords_to_attack p)"
  let ?pruned = "filter (\<lambda>coord. coord \<notin> set (diag_coords ?x ?y)) ?removed"
  have mem: "coord_to_attack p \<in> set (list_coords_to_attack p)"
    using nf sel by (auto simp: select_coordinates_to_attack_def py_remove_def split: if_splits)
  then have rem: "py_remove (list_coords_to_attack p) (coord_to_attack p) = Inr ?removed"
    by (simp add: py_remove_def)
  show ?thesis
  proof (cases "did_we_just_hit_a_ship ?x ?y opponents_ships")
    case False
    with nf sel rem have "draw_choice ?removed rs = Some (Inr (c, rs'))"
      and "p' = p \<lparr> list_coords_to_attack := ?removed, coord_to_attack := c \<rparr>"
      by (auto simp: select_coordinates_to_attack_def Let_def split: option.splits sum.splits)
    with draw_choice_in_seq [of ?removed rs c rs'] mem False show ?thesis by auto
  next
    case hit: True
    show ?thesis
    proof (cases "did_we_just_sink_a_ship ?x ?y opponents_ships = Some False")
      case True
      with nf sel rem hit have "hunt rs ?x ?y ?pruned (coord_to_attack p) = Some (Inr (c, rs'))"
        and "p' = p \<lparr> list_coords_to_attack := ?pruned, coord_to_attack := c \<rparr>"
        by (auto simp: select_coordinates_to_attack_def Let_def split: option.splits sum.splits)
      with hunt_in_coords [of rs ?x ?y ?pruned "coord_to_attack p" c rs'] mem
      show ?thesis by auto
    next
      case False
      with nf sel rem hit have "draw_choice ?pruned rs = Some (Inr (c, rs'))"
        and "p' = p \<lparr> list_coords_to_attack := ?pruned, coord_to_attack := c \<rparr>"
        by (auto simp: select_coordinates_to_attack_def Let_def split: option.splits sum.splits)
      with draw_choice_in_seq [of ?pruned rs c rs'] mem show ?thesis by auto
    qed
  qed
qed

lemma select_step:
  assumes inv: "auto_inv h p"
    and sel: "select_coordinates_to_attack p opponents_ships rs = Some (Inr (c, p', rs'))"
  shows "auto_inv (h @ [c]) p' \<and> c \<notin> set h \<and> on_board c"
proof (cases "first_go p")
  case True
  with sel have "c = coord_to_attack p" "p' = p \<lparr> first_go := False \<rparr>"
    by (simp_all add: select_coordinates_to_attack_def)
  with inv True show ?thesis by (auto simp: auto_inv_def)
next
  case False
  let ?cur = "coord_to_attack p" and ?list = "list_coords_to_attack p"
  from select_later [OF False sel] obtain coords where
    p': "p' = p \<lparr> list_coords_to_attack := coords, coord_to_attack := c \<rparr>"
    and c: "c \<in> set coords"
    and shape: "coords = remove1 ?cur ?list
       \<or> coords = filter (\<lambda>coord. coord \<notin> set (diag_coords (fst ?cur) (snd ?cur)))
                    (remove1 ?cur ?list)"
    by blast
  from inv False have dl: "distinct ?list" and ob: "\<forall>c \<in> set ?list. on_board c"
    and dh: "distinct h" and ne: "h \<noteq> []" and lst: "last h = ?cur"
    and old: "set (butlast h) \<inter> set ?list = {}"
    by (simp_all add: auto_inv_def)
  from shape dl have sub: "set coords \<subseteq> set ?list - {?cur}" and dc: "distinct coords"
    by auto
  from ne lst have h: "set h = insert ?cur (set (butlast h))"
    by (metis append_butlast_last_id list.simps(15) rotate1.simps(2) set_rotate1)
  have fresh: "c \<notin> set h" using c sub old h by auto
  have apart: "set h \<inter> set coords = {}" using sub old h by auto
  have "auto_inv (h @ [c]) p'"
    using dc ob sub c dh fresh apart False by (auto simp: auto_inv_def p')
  moreover have "on_board c" using c sub ob by auto
  ultimately show ?thesis using fresh by simp
qed

lemma auto_run_inv: "auto_run h p \<Longrightarrow> auto_inv h p"
proof (induction rule: auto_run.induct)
  case (auto_start r p)
  then show ?case by (rule PlayerAutomatic_init_inv)
next
  case (auto_turn h p opponents_ships rs c p' rs')
  from select_step [OF auto_turn.IH auto_turn.hyps(2)] show ?case by simp
qed

text \<open>
  C6. In every life of a hunting player, a coordinate returned by
  \<^verbatim>\<open>select_coordinates_to_attack\<close> was not returned by any earlier call and lies on the
  board; and when the previous returned coordinate \<open>(x, y)\<close> is on a ship of the opponent
  that has not sunk, the coordinate returned is none of its four diagonal neighbours
  \<open>(x + 1, y + 1)\<close>, \<open>(x + 1, y - 1)\<close>, \<open>(x - 1, y + 1)\<close> and \<open>(x - 1, y - 1)\<close>, and none
  of the four is left in \<^verbatim>\<open>list_coords_to_attack\<close>. The call is the first one exactly
  when nothing was returned before, and later the field \<^verbatim>\<open>coord_to_attack\<close> holds the
  previous returned coordinate.
\<close>

theorem hunt_adjacency_targets:
  assumes "auto_run h p"
    and "select_coordinates_to_attack p opponents_ships rs = Some (Inr (c, p', rs'))"
  shows "c \<notin> set h \<and> on_board c
    \<and> (first_go p \<longleftrightarrow> h = [])
    \<and> (h \<noteq> [] \<longrightarrow> coord_to_attack p = last h)
    \<and> (h \<noteq> []
        \<and> did_we_just_hit_a_ship (fst (last h)) (snd (last h)) opponents_ships
        \<and> did_we_just_sink_a_ship (fst (last h)) (snd (last h)) opponents_ships = Some False
        \<longrightarrow> c \<noteq> (fst (last h) + 1, snd (last h) + 1)
          \<and> c \<noteq> (fst (last h) + 1, snd (last h) - 1)
          \<and> c \<noteq> (fst (last h) - 1, snd (last h) + 1)
          \<and> c \<noteq> (fst (last h) - 1, snd (last h) - 1)
          \<and> (fst (last h) + 1, snd (last h) + 1) \<notin> set (list_coords_to_attack p')
          \<and> (fst (last h) + 1, snd (last h) - 1) \<notin> set (list_coords_to_attack p')
          \<and> (fst (last h) - 1, snd (last h) + 1) \<notin> set (list_coords_to_attack p')
          \<and> (fst (last h) - 1, snd (last h) - 1) \<notin> set (list_coords_to_attack p'))"
proof -
  let ?x = "fst (last h)" and ?y = "snd (last h)"
  have inv: "auto_inv h p" using assms(1) by (rule auto_run_inv)
  from select_step [OF inv assms(2)] have fresh: "c \<notin> set h" and ob: "on_board c"
    by simp_all
  have first: "first_go p \<longleftrightarrow> h = []"
    using inv by (auto simp: auto_inv_def split: if_splits)
  have cur: "h \<noteq> [] \<longrightarrow> coord_to_attack p = last h"
    using inv by (auto simp: auto_inv_def split: if_splits)
  have diag: "c \<noteq> (?x + 1, ?y + 1) \<and> c \<noteq> (?x + 1, ?y - 1)
      \<and> c \<noteq> (?x - 1, ?y + 1) \<and> c \<noteq> (?x - 1, ?y - 1)
      \<and> (?x + 1, ?y + 1) \<notin> set (list_coords_to_attack p')
      \<and> (?x + 1, ?y - 1) \<notin> set (list_coords_to_attack p')
      \<and> (?x - 1, ?y + 1) \<notin> set (list_coords_to_attack p')
      \<and> (?x - 1, ?y - 1) \<notin> set (list_coords_to_attack p')"
    if "h \<noteq> []" "did_we_just_hit_a_ship ?x ?y opponents_ships"
  proof -
    let ?pruned = "filter (\<lambda>coord. coord \<notin> set (diag_coords ?x ?y))
                     (remove1 (last h) (list_coords_to_attack p))"
    from that first cur have nf: "\<not> first_go p" and eq: "coord_to_attack p = last h"
      by simp_all
    from select_later [OF nf assms(2)] that(2) eq
    have c: "c \<in> set ?pruned" and left: "list_coords_to_attack p' = ?pruned"
      by auto
    have four: "set (diag_coords ?x ?y)
        = {(?x + 1, ?y + 1), (?x + 1, ?y - 1), (?x - 1, ?y + 1), (?x - 1, ?y - 1)}"
      by (simp add: diag_coords_def)
    from c have "c \<notin> set (diag_coords ?x ?y)" by simp
    moreover have "\<forall>d \<in> set (diag_coords ?x ?y). d \<notin> set (list_coords_to_attack p')"
      unfolding left by simp
    ultimately show ?thesis unfolding four by blast
  qed
  from fresh ob first cur diag show ?thesis by blast
qed

lemma hunter_new_init: "PlayerAutomatic_init 0 = Inr hunter_new"
  by code_simp

lemma hunter_first_select:
  "select_coordinates_to_attack hunter_new [] [] = Some (Inr ((1, 1), hunter_first, []))"
  by code_simp

lemma hunter_second_select:
  "select_coordinates_to_attack hunter_first hunted_ships [10, 4]
     = Some (Inr ((2, 3), hunter_second, []))"
  by code_simp

lemma hunter_second_coords:
  "remove1 (1, 1) all_coords ! 10 = (2, 2)
   \<and> list_all (\<lambda>d. d \<notin> set (list_coords_to_attack hunter_second))
       [(2, 2), (2, 0), (0, 2), (0, 0)]"
  by code_simp

lemma hunted_ships_hit:
  "did_we_just_hit_a_ship 1 1 hunted_ships
   \<and> did_we_just_sink_a_ship 1 1 hunted_ships = Some False"
  by code_simp

theorem hunt_adjacency_targets_witness:
  "auto_run [(1, 1)] hunter_first
   \<and> select_coordinates_to_attack hunter_first hunted_ships [10, 4]
       = Some (Inr ((2, 3), hunter_second, []))
   \<and> did_we_just_hit_a_ship 1 1 hunted_ships
   \<and> did_we_just_sink_a_ship 1 1 hunted_ships = Some False
   \<and> remove1 (1, 1) all_coords ! 10 = (2, 2)
   \<and> list_all (\<lambda>d. (2, 3) \<noteq> d \<and> d \<notin> set (list_coords_to_attack hunter_second))
       [(2, 2), (2, 0), (0, 2), (0, 0)]
   \<and> on_board (2, 3)"
proof -
  have "auto_run [] hunter_new" using hunter_new_init by (rule auto_start)
  from auto_turn [OF this hunter_first_select]
  have run: "auto_run [(1, 1)] hunter_first" by simp
  from hunt_adjacency_targets [OF run hunter_second_select] run hunter_second_select
    hunted_ships_hit hunter_second_coords
  show ?thesis by simp
qed

subsection \<open>The random player\<close>

lemma near_sunk_ship_iff:
  "near_sunk_ship ships coord
     \<longleftrightarrow> (\<exists>s \<in> set ships. has_sunk s \<and> is_near_coordinate s (fst coord) (snd coord))"
  by (induction ships) auto

lemma get_random_coordinates_on_board: "on_board (get_random_coordinates r1 r2)"
proof -
  have "r1 mod 10 < 10" "r2 mod 10 < 10" by simp_all
  then have "r1 mod 10 \<le> 9" "r2 mod 10 \<le> 9" by linarith+
  then show ?thesis
    by (simp add: get_random_coordinates_def randint_def on_board_def SIZE_X_def SIZE_Y_def)
qed

lemma select_random_coordinates_to_attack_result:
  "select_random_coordinates_to_attack rs p = Some (c, rs') \<Longrightarrow>
     c \<notin> set_positions_previously_attacked p
     \<and> \<not> is_position_near_previously_sunk_ship p c
     \<and> on_board c"
proof (induction rs p rule: select_random_coordinates_to_attack.induct)
  case (1 r1 r2 rs p)
  let ?c = "get_random_coordinates r1 r2"
  show ?case
  proof (cases "?c \<in> set_positions_previously_attacked p
      \<or> is_position_near_previously_sunk_ship p ?c")
    case True
    with "1.prems" have "select_random_coordinates_to_attack rs p = Some (c, rs')"
      by (auto simp: Let_def)
    from "1.IH" [OF refl refl refl True this] show ?thesis .
  next
    case False
    with "1.prems" have "c = ?c" by (auto simp: Let_def)
    with False get_random_coordinates_on_board [of r1 r2] show ?thesis by simp
  qed
qed simp_all

lemma select_coordinates_to_attack_random_result:
  assumes "select_coordinates_to_attack_random p rs = Some (c, p', rs')"
  shows "c \<notin> set_positions_previously_attacked p
    \<and> set_positions_previously_attacked p' = insert c (set_positions_previously_attacked p)
    \<and> last_attack_coord p' = Some c
    \<and> list_ships_opponent_previously_sunk p' = list_ships_opponent_previously_sunk p
    \<and> on_board c
    \<and> \<not> is_position_near_previously_sunk_ship p c"
proof -
  from assms obtain rs1 where sel: "select_random_coordinates_to_attack rs p = Some (c, rs1)"
    and p': "p' = p \<lparr> set_positions_previously_attacked :=
                        insert c (set_positions_previously_attacked p),
                      last_attack_coord := Some c \<rparr>"
    by (auto simp: select_coordinates_to_attack_random_def split: option.splits)
  from select_random_coordinates_to_attack_result [OF sel] show ?thesis
    by (simp add: p')
qed

lemma random_run_history:
  "random_run h p \<Longrightarrow> set h = set_positions_previously_attacked p \<and> distinct h"
proof (induction rule: random_run.induct)
  case random_start
  then show ?case by (simp add: PlayerRandom_init_def)
next
  case (random_told h p ships)
  then show ?case by simp
next
  case (random_turn h p rs c p' rs')
  from select_coordinates_to_attack_random_result [OF random_turn.hyps(2)] random_turn.IH
  show ?case by auto
qed

text \<open>
  A ship that has sunk stays sunk, whatever damage it gets afterwards: the ships of a list
  of previously sunk ships satisfy \<^verbatim>\<open>has_sunk()\<close> at every later call.
\<close>

lemma has_sunk_gets_damage_at:
  assumes "ship_reachable s" and "has_sunk s"
  shows "has_sunk (gets_damage_at s x y)"
proof -
  have wf: "ship_wf s" using assms(1) by (rule ship_reachable_wf)
  from assms(2) have all: "set_coordinates_damages s = get_all_coordinates s"
    by (simp add: ship_wf_has_sunk [OF wf])
  then have "gets_damage_at s x y = s"
    by (simp add: gets_damage_at_def is_on_coordinate_def insert_absorb)
  with assms(2) show ?thesis by simp
qed

text \<open>
  C7. In every life of a random player, a coordinate returned by
  \<^verbatim>\<open>select_coordinates_to_attack\<close> was not returned by any earlier call: the coordinates
  returned so far are exactly \<^verbatim>\<open>set_positions_previously_attacked\<close>, the coordinate is
  not in that set when chosen and is added to it by the call. It lies on the board. When
  the ships of \<^verbatim>\<open>list_ships_opponent_previously_sunk\<close> have sunk, the coordinate is not
  within the adjacency zone of any of them, the box of the ship widened by one cell on
  every side; in general it is not within the zone of any ship of the list of which
  \<^verbatim>\<open>has_sunk()\<close> holds.
\<close>

theorem random_avoidance_targets:
  assumes "random_run h p"
    and "select_coordinates_to_attack_random p rs = Some (c, p', rs')"
  shows "c \<notin> set h
    \<and> set h = set_positions_previously_attacked p
    \<and> c \<notin> set_positions_previously_attacked p
    \<and> set_positions_previously_attacked p' = insert c (set_positions_previously_attacked p)
    \<and> last_attack_coord p' = Some c
    \<and> on_board c
    \<and> (\<forall>s \<in> set (list_ships_opponent_previously_sunk p).
          has_sunk s \<longrightarrow> \<not> is_near_coordinate s (fst c) (snd c))
    \<and> (list_all has_sunk (list_ships_opponent_previously_sunk p) \<longrightarrow>
          (\<forall>s \<in> set (list_ships_opponent_previously_sunk p).
             \<not> is_near_coordinate s (fst c) (snd c)
             \<and> \<not> (x_start s - 1 \<le> fst c \<and> fst c \<le> x_end s + 1
                  \<and> y_start s - 1 \<le> snd c \<and> snd c \<le> y_end s + 1)))"
proof -
  note res = select_coordinates_to_attack_random_result [OF assms(2)]
  note hist = random_run_history [OF assms(1)]
  from res have "\<not> near_sunk_ship (list_ships_opponent_previously_sunk p) c"
    by (simp add: is_position_near_previously_sunk_ship_def)
  then have far: "\<forall>s \<in> set (list_ships_opponent_previously_sunk p).
      has_sunk s \<longrightarrow> \<not> is_near_coordinate s (fst c) (snd c)"
    by (simp add: near_sunk_ship_iff)
  have zone: "\<forall>s \<in> set (list_ships_opponent_previously_sunk p).
      \<not> is_near_coordinate s (fst c) (snd c)
      \<and> \<not> (x_start s - 1 \<le> fst c \<and> fst c \<le> x_end s + 1
           \<and> y_start s - 1 \<le> snd c \<and> snd c \<le> y_end s + 1)"
    if "list_all has_sunk (list_ships_opponent_previously_sunk p)"
    using far that by (auto simp: list_all_iff is_near_coordinate_def)
  from res hist far zone show ?thesis by simp
qed

lemma informed_player_select:
  "select_coordinates_to_attack_random informed_player [0, 0, 5, 5]
     = Some ((6, 6),
             informed_player \<lparr> set_positions_previously_attacked := {(6, 6)},
                               last_attack_coord := Some (6, 6) \<rparr>, [])"
  by code_simp

lemma informed_player_sunk:
  "list_all has_sunk (list_ships_opponent_previously_sunk informed_player)
   \<and> list_ex (\<lambda>s. is_near_coordinate s 1 1) (list_ships_opponent_previously_sunk informed_player)"
  by code_simp

theorem random_avoidance_targets_witness:
  "random_run [] informed_player
   \<and> select_coordinates_to_attack_random informed_player [0, 0, 5, 5]
       = Some ((6, 6),
               informed_player \<lparr> set_positions_previously_attacked := {(6, 6)},
                                 last_attack_coord := Some (6, 6) \<rparr>, [])
   \<and> list_all has_sunk (list_ships_opponent_previously_sunk informed_player)
   \<and> list_all (\<lambda>s. \<not> is_near_coordinate s 6 6)
       (list_ships_opponent_previously_sunk informed_player)
   \<and> on_board (6, 6)"
proof -
  have run: "random_run [] informed_player"
    unfolding informed_player_def using random_start by (rule random_told)
  from random_avoidance_targets [OF run informed_player_select] run informed_player_select
    informed_player_sunk
  show ?thesis by (auto simp: list_all_iff)
qed

end
